theory Spec2Isabelle
  imports Complex_Main
begin

section \<open>The page-flip engine of script.py\<close>

text \<open>
  A shallow embedding of the flip state machine of \<^verbatim>\<open>BookAlbum\<close> (script.py).
  Python's \<^verbatim>\<open>int\<close> is \<^typ>\<open>int\<close>; Python's \<^verbatim>\<open>float\<close> is the idealised \<^typ>\<open>real\<close>
  (exact arithmetic, the decimal constants read as the decimal fractions they are written
  as). Mutation of \<^verbatim>\<open>self\<close> is explicit state passing. What the code reads from the
  environment (\<^verbatim>\<open>pygame.mouse.get_pos()\<close>) is an extra argument of the function that
  reads it.
\<close>

subsection \<open>Config (lines 21-48)\<close>

definition WINDOW_W :: int where "WINDOW_W = 1200"
definition WINDOW_H :: int where "WINDOW_H = 720"
definition BOOK_MARGIN :: int where "BOOK_MARGIN = 60"
definition SPINE_W :: int where "SPINE_W = 18"
definition PAGE_GAP :: int where "PAGE_GAP = 2"

definition FLIP_SPEED :: real where "FLIP_SPEED = 10"
definition DRAG_SPRING :: real where "DRAG_SPRING = 22"
definition DRAG_DAMP :: real where "DRAG_DAMP = 86 / 100"

subsection \<open>Helpers (lines 50-63)\<close>

definition clamp :: "'a::linorder \<Rightarrow> 'a \<Rightarrow> 'a \<Rightarrow> 'a" where
  "clamp x a b = max a (min b x)"

definition lerp :: "real \<Rightarrow> real \<Rightarrow> real \<Rightarrow> real" where
  "lerp a b u = a + (b - a) * u"

definition smoothstep :: "real \<Rightarrow> real" where
  "smoothstep u = (let c = clamp u 0 1 in c * c * (3 - 2 * c))"

definition ease_out_cubic :: "real \<Rightarrow> real" where
  "ease_out_cubic u = (let c = clamp u 0 1 in 1 - (1 - c) ^ 3)"

text \<open>Python's \<^verbatim>\<open>int(x)\<close> on a float truncates toward zero.\<close>

definition py_int :: "real \<Rightarrow> int" where
  "py_int x = (if 0 \<le> x then \<lfloor>x\<rfloor> else \<lceil>x\<rceil>)"

subsection \<open>pygame.Rect, as far as the book geometry uses it\<close>

record Rect =
  r_left :: int
  r_top :: int
  r_width :: int
  r_height :: int

definition r_right :: "Rect \<Rightarrow> int" where
  "r_right r = r_left r + r_width r"

definition r_centerx :: "Rect \<Rightarrow> int" where
  "r_centerx r = r_left r + r_width r div 2"

definition inflate :: "Rect \<Rightarrow> int \<Rightarrow> int \<Rightarrow> Rect" where
  "inflate r dx dy =
     \<lparr>r_left = r_left r - dx div 2, r_top = r_top r - dy div 2,
      r_width = r_width r + dx, r_height = r_height r + dy\<rparr>"

definition collidepoint :: "Rect \<Rightarrow> int \<Rightarrow> int \<Rightarrow> bool" where
  "collidepoint r x y =
     (r_left r \<le> x \<and> x < r_left r + r_width r \<and> r_top r \<le> y \<and> y < r_top r + r_height r)"

subsection \<open>Book geometry (\<^verbatim>\<open>BookAlbum.__init__\<close>, lines 171-186)\<close>

text \<open>The geometry is computed once from the constants and never assigned again.\<close>

definition book_rect :: Rect where
  "book_rect =
     \<lparr>r_left = BOOK_MARGIN, r_top = BOOK_MARGIN,
      r_width = WINDOW_W - 2 * BOOK_MARGIN, r_height = WINDOW_H - 2 * BOOK_MARGIN\<rparr>"

definition spread_rect :: Rect where
  "spread_rect = inflate book_rect (- 40) (- 40)"

definition spine_x :: int where
  "spine_x = r_centerx spread_rect"

definition page_w :: int where
  "page_w = (r_width spread_rect - SPINE_W - PAGE_GAP * 2) div 2"

definition page_h :: int where
  "page_h = r_height spread_rect"

definition left_rect :: Rect where
  "left_rect =
     \<lparr>r_left = r_left spread_rect, r_top = r_top spread_rect,
      r_width = page_w, r_height = page_h\<rparr>"

definition right_rect :: Rect where
  "right_rect =
     \<lparr>r_left = spine_x + SPINE_W div 2 + PAGE_GAP, r_top = r_top spread_rect,
      r_width = page_w, r_height = page_h\<rparr>"

subsection \<open>Data (lines 150-166, 190-193)\<close>

record FlipState =
  flipping :: bool
  direction :: int
  t :: real
  dragging :: bool
  drag_x :: real
  vel :: real

text \<open>\<^verbatim>\<open>FlipState()\<close> with the dataclass defaults.\<close>

definition FlipState_new :: FlipState where
  "FlipState_new =
     \<lparr>flipping = False, direction = 0, t = 0, dragging = False, drag_x = 0, vel = 0\<rparr>"

text \<open>
  The fields of \<^verbatim>\<open>BookAlbum\<close> the flip engine reads or writes. The attribute
  \<^verbatim>\<open>_drag_commit\<close> is added by \<^verbatim>\<open>end_drag\<close> and removed with \<^verbatim>\<open>delattr\<close>:
  \<open>None\<close> is the absent attribute (\<^verbatim>\<open>hasattr\<close> false).
\<close>

record BookAlbum =
  pages :: "string list"
  index :: int
  flip :: FlipState
  autoplay :: bool
  autoplay_interval :: real
  autoplay_timer :: real
  drag_commit :: "bool option"

definition BookAlbum_new :: "string list \<Rightarrow> BookAlbum" where
  "BookAlbum_new ps =
     \<lparr>pages = ps, index = 0, flip = FlipState_new, autoplay = False,
      autoplay_interval = 22 / 10, autoplay_timer = 0, drag_commit = None\<rparr>"

subsection \<open>Page queries (lines 213-231)\<close>

definition can_next :: "BookAlbum \<Rightarrow> bool" where
  "can_next self = (index self + 2 < int (length (pages self)))"

definition can_prev :: "BookAlbum \<Rightarrow> bool" where
  "can_prev self = (index self - 2 \<ge> 0)"

text \<open>A page surface is the blank paper page or the cached image of a path.\<close>

datatype surface = Blank | Image string

definition get_page_surface :: "BookAlbum \<Rightarrow> int \<Rightarrow> surface" where
  "get_page_surface self idx =
     (if idx < 0 \<or> idx \<ge> int (length (pages self)) then Blank
      else Image (pages self ! nat idx))"

subsection \<open>Commands (lines 233-294)\<close>

definition start_flip :: "BookAlbum \<Rightarrow> int \<Rightarrow> BookAlbum" where
  "start_flip self d =
     (if flipping (flip self) \<or> dragging (flip self) then self
      else if d = 1 \<and> \<not> can_next self then self
      else if d = - 1 \<and> \<not> can_prev self then self
      else self\<lparr>flip :=
        \<lparr>flipping = True, direction = d, t = 0, dragging = False, drag_x = 0, vel = 0\<rparr>\<rparr>)"

text \<open>
  \<open>mouse_y\<close> is \<^verbatim>\<open>pygame.mouse.get_pos()[1]\<close>, read from the environment.
\<close>

definition start_drag :: "BookAlbum \<Rightarrow> int \<Rightarrow> int \<Rightarrow> BookAlbum" where
  "start_drag self mx mouse_y =
     (if flipping (flip self) then self
      else if can_next self \<and> collidepoint right_rect mx mouse_y \<and> mx > r_right right_rect - 80
      then self\<lparr>flip := (flip self)\<lparr>dragging := True, direction := 1,
                                     drag_x := real_of_int mx, vel := 0\<rparr>\<rparr>
      else if can_prev self \<and> collidepoint left_rect mx mouse_y \<and> mx < r_left left_rect + 80
      then self\<lparr>flip := (flip self)\<lparr>dragging := True, direction := - 1,
                                     drag_x := real_of_int mx, vel := 0\<rparr>\<rparr>
      else self)"

definition drag_to_t :: "real \<Rightarrow> int \<Rightarrow> real" where
  "drag_to_t dx d =
     (if d = 1 then
        (let start = r_right right_rect; endx = r_left left_rect
         in clamp ((real_of_int start - dx) / real_of_int (max 1 (start - endx))) 0 1)
      else
        (let start = r_left left_rect; endx = r_right right_rect
         in clamp ((dx - real_of_int start) / real_of_int (max 1 (endx - start))) 0 1))"

definition end_drag :: "BookAlbum \<Rightarrow> BookAlbum" where
  "end_drag self =
     (if \<not> dragging (flip self) then self
      else
        (let commit = (if direction (flip self) = 1
                       then drag_x (flip self) < real_of_int spine_x
                       else drag_x (flip self) > real_of_int spine_x)
         in self\<lparr>flip := (flip self)\<lparr>dragging := False, flipping := True,
                     t := drag_to_t (drag_x (flip self)) (direction (flip self)),
                     vel := 0\<rparr>,
                 drag_commit := Some commit\<rparr>))"

subsection \<open>The frame step (lines 296-340)\<close>

definition finish_flip :: "BookAlbum \<Rightarrow> BookAlbum" where
  "finish_flip self =
     (let self1 =
        (if t (flip self) \<ge> 1 then
           (if direction (flip self) = 1 then self\<lparr>index := index self + 2\<rparr>
            else if direction (flip self) = - 1 then self\<lparr>index := index self - 2\<rparr>
            else self)
         else self)
      in self1\<lparr>flip := FlipState_new\<rparr>)"

text \<open>The autoplay block at the head of \<^verbatim>\<open>update\<close> (lines 297-305).\<close>

definition update_autoplay :: "BookAlbum \<Rightarrow> real \<Rightarrow> BookAlbum" where
  "update_autoplay self dt =
     (if autoplay self \<and> \<not> flipping (flip self) \<and> \<not> dragging (flip self) then
        (let self1 = self\<lparr>autoplay_timer := autoplay_timer self + dt\<rparr>
         in if autoplay_timer self1 \<ge> autoplay_interval self1 then
              (let self2 = self1\<lparr>autoplay_timer := 0\<rparr>
               in if can_next self2 then start_flip self2 1 else self2\<lparr>index := 0\<rparr>)
            else self1)
      else self)"

text \<open>
  The spring branch (lines 315-325); \<open>c\<close> is the value of \<^verbatim>\<open>_drag_commit\<close>, and
  \<open>spring_target\<close> is line 317, \<^verbatim>\<open>target = 1.0 if self._drag_commit else 0.0\<close>.
\<close>

definition spring_target :: "bool \<Rightarrow> real" where
  "spring_target c = (if c then 1 else 0)"

definition update_spring :: "BookAlbum \<Rightarrow> real \<Rightarrow> bool \<Rightarrow> BookAlbum" where
  "update_spring self dt c =
     (let target = spring_target c;
          a = (target - t (flip self)) * DRAG_SPRING;
          v = (vel (flip self) + a * dt) * DRAG_DAMP;
          t1 = t (flip self) + v * dt
      in if \<bar>target - t1\<bar> < 2 / 1000 \<and> \<bar>v\<bar> < 1 / 100
         then finish_flip (self\<lparr>flip := (flip self)\<lparr>vel := v, t := target\<rparr>, drag_commit := None\<rparr>)
         else self\<lparr>flip := (flip self)\<lparr>vel := v, t := t1\<rparr>\<rparr>)"

text \<open>The keyboard-flip branch (lines 326-330).\<close>

definition update_anim :: "BookAlbum \<Rightarrow> real \<Rightarrow> BookAlbum" where
  "update_anim self dt =
     (let t1 = t (flip self) + dt * (FLIP_SPEED / 10)
      in if t1 \<ge> 1 then finish_flip (self\<lparr>flip := (flip self)\<lparr>t := 1\<rparr>\<rparr>)
         else self\<lparr>flip := (flip self)\<lparr>t := t1\<rparr>\<rparr>)"

text \<open>
  \<^verbatim>\<open>update(dt)\<close>; \<open>mouse_x\<close> is \<^verbatim>\<open>pygame.mouse.get_pos()[0]\<close>, read in the
  dragging branch.
\<close>

definition update :: "BookAlbum \<Rightarrow> real \<Rightarrow> int \<Rightarrow> BookAlbum" where
  "update self dt mouse_x =
     (let self1 = update_autoplay self dt
      in if dragging (flip self1) then
           self1\<lparr>flip := (flip self1)\<lparr>drag_x :=
             real_of_int (clamp mouse_x (r_left left_rect) (r_right right_rect))\<rparr>\<rparr>
         else if flipping (flip self1) then
           (case drag_commit self1 of
              Some c \<Rightarrow> update_spring self1 dt c
            | None \<Rightarrow> update_anim self1 dt)
         else self1)"

subsection \<open>Events (lines 342-365)\<close>

datatype key = K_RIGHT | K_d | K_SPACE | K_LEFT | K_a | K_BACKSPACE | K_HOME | K_END | K_p
  | K_other

datatype event =
    KEYDOWN key
  | MOUSEBUTTONDOWN int int int
  | MOUSEBUTTONUP int
  | OTHER_EVENT

text \<open>
  \<open>MOUSEBUTTONDOWN b mx my\<close> carries \<^verbatim>\<open>e.button\<close> and \<^verbatim>\<open>e.pos\<close>; \<open>mouse_y\<close> is the
  environment's pointer row, which \<^verbatim>\<open>start_drag\<close> reads.
\<close>

definition key_end :: "BookAlbum \<Rightarrow> BookAlbum" where
  "key_end self =
     (let n = int (length (pages self))
      in if n > 0 then
           (let self1 = self\<lparr>index := (n - 1) div 2 * 2\<rparr>
            in if index self1 \<ge> n then self1\<lparr>index := max 0 (n - 2)\<rparr> else self1)
         else self)"

fun handle_event :: "BookAlbum \<Rightarrow> event \<Rightarrow> int \<Rightarrow> BookAlbum" where
  "handle_event self (KEYDOWN k) mouse_y =
     (if k = K_RIGHT \<or> k = K_d \<or> k = K_SPACE then start_flip self 1
      else if k = K_LEFT \<or> k = K_a \<or> k = K_BACKSPACE then start_flip self (- 1)
      else if k = K_HOME then self\<lparr>index := 0\<rparr>
      else if k = K_END then key_end self
      else if k = K_p then self\<lparr>autoplay := \<not> autoplay self, autoplay_timer := 0\<rparr>
      else self)"
| "handle_event self (MOUSEBUTTONDOWN b mx my) mouse_y =
     (if b = 1 then start_drag self mx mouse_y else self)"
| "handle_event self (MOUSEBUTTONUP b) mouse_y =
     (if b = 1 then end_drag self else self)"
| "handle_event self OTHER_EVENT mouse_y = self"

subsection \<open>Driving the album\<close>

text \<open>
  One call from the render loop: an event handed to \<^verbatim>\<open>handle_event\<close> (with the pointer
  row of that moment), or a frame \<^verbatim>\<open>update(dt)\<close> (with the pointer column of that
  moment). \<open>run\<close> applies a sequence of calls in order.
\<close>

datatype call = Event event int | Frame real int

fun apply_call :: "BookAlbum \<Rightarrow> call \<Rightarrow> BookAlbum" where
  "apply_call self (Event e mouse_y) = handle_event self e mouse_y"
| "apply_call self (Frame dt mouse_x) = update self dt mouse_x"

definition run :: "BookAlbum \<Rightarrow> call list \<Rightarrow> BookAlbum" where
  "run self cs = foldl apply_call self cs"

text \<open>A frame with a positive time step.\<close>

fun positive_dt :: "call \<Rightarrow> bool" where
  "positive_dt (Frame dt mouse_x) = (0 < dt)"
| "positive_dt (Event e mouse_y) = True"

subsection \<open>The mode of the state machine\<close>

text \<open>
  The code keeps no mode field: \<^verbatim>\<open>update\<close> dispatches on \<^verbatim>\<open>flip.dragging\<close> first, then
  on \<^verbatim>\<open>flip.flipping\<close>, and inside that on \<^verbatim>\<open>hasattr(self, "_drag_commit")\<close>.
  \<open>mode_of\<close> names the branch \<^verbatim>\<open>update\<close> takes; a spring carries its target.
\<close>

datatype mode = Idle | Animating | Dragging | Springing real

definition mode_of :: "BookAlbum \<Rightarrow> mode" where
  "mode_of self =
     (if dragging (flip self) then Dragging
      else if flipping (flip self) then
        (case drag_commit self of Some c \<Rightarrow> Springing (spring_target c) | None \<Rightarrow> Animating)
      else Idle)"

text \<open>
  What \<^verbatim>\<open>draw_flip\<close> shows when no flip is active (lines 424-426): the surfaces of the
  left and the right page.
\<close>

definition displayed_pages :: "BookAlbum \<Rightarrow> surface \<times> surface" where
  "displayed_pages self = (get_page_surface self (index self), get_page_surface self (index self + 1))"

subsection \<open>Example books and states\<close>

definition p4 :: "string list" where
  "p4 = [''a'', ''b'', ''c'', ''d'']"

definition p6 :: "string list" where
  "p6 = [''a'', ''b'', ''c'', ''d'', ''e'', ''f'']"

text \<open>A four-page book in the middle of a drag, the pointer at column \<open>x\<close>.\<close>

definition dragging_example :: "real \<Rightarrow> int \<Rightarrow> BookAlbum" where
  "dragging_example x d = (BookAlbum_new p4)\<lparr>flip :=
     \<lparr>flipping = False, direction = d, t = 0, dragging = True, drag_x = x, vel = 0\<rparr>\<rparr>"

text \<open>Index 0, no flip active, and both pages of the spread blank.\<close>

definition blank_idle :: "BookAlbum \<Rightarrow> bool" where
  "blank_idle self =
     (index self = 0 \<and> mode_of self = Idle \<and> displayed_pages self = (Blank, Blank))"

text \<open>A four-page book just after \<^verbatim>\<open>start_flip(1)\<close>.\<close>

definition animating_example :: BookAlbum where
  "animating_example = start_flip (BookAlbum_new p4) 1"

subsection \<open>Frames and episodes\<close>

text \<open>A run of frames \<^verbatim>\<open>update(dt)\<close> with the pointer resting at one column.\<close>

definition frames :: "real list \<Rightarrow> int \<Rightarrow> call list" where
  "frames dts mouse_x = map (\<lambda>dt. Frame dt mouse_x) dts"

text \<open>
  An episode driven by frames only: \<^verbatim>\<open>update\<close> is called with each time step and
  pointer column in turn for as long as \<^verbatim>\<open>flip.flipping\<close> holds.
\<close>

fun advance_episode :: "BookAlbum \<Rightarrow> (real \<times> int) list \<Rightarrow> BookAlbum" where
  "advance_episode self [] = self"
| "advance_episode self ((dt, mouse_x) # fs) =
     (if flipping (flip self) then advance_episode (update self dt mouse_x) fs else self)"

text \<open>
  The index \<^verbatim>\<open>finish_flip\<close> leaves when the running episode completes: a spring that
  was cancelled snaps to \<open>t = 0\<close> and keeps the index, every other episode ends at
  \<open>t = 1\<close> and shifts by the direction.
\<close>

definition index_after :: "BookAlbum \<Rightarrow> int" where
  "index_after self =
     (if drag_commit self = Some False then index self
      else if direction (flip self) = 1 then index self + 2
      else if direction (flip self) = - 1 then index self - 2
      else index self)"

text \<open>
  The invariant behind the progress bound: without a pending spring the stored progress is
  in the unit interval, and a pending spring means flipping and not dragging.
\<close>

definition progress_ok :: "BookAlbum \<Rightarrow> bool" where
  "progress_ok self =
     ((drag_commit self = None \<longrightarrow> 0 \<le> t (flip self) \<and> t (flip self) \<le> 1) \<and>
      (drag_commit self \<noteq> None \<longrightarrow> flipping (flip self) \<and> \<not> dragging (flip self)))"

text \<open>The progress \<^verbatim>\<open>draw_flip\<close> works with (line 437).\<close>

definition draw_t :: "BookAlbum \<Rightarrow> real" where
  "draw_t self = clamp (t (flip self)) 0 1"

text \<open>
  The invariant behind the progress bound of a spring at small time steps: while a spring
  runs, the velocity points at the target and is at most 4.7 times the remaining distance,
  so that one step of at most a sixtieth of a second cannot carry the progress past the
  target.
\<close>

definition settling :: "BookAlbum \<Rightarrow> bool" where
  "settling self =
     (progress_ok self \<and>
      (drag_commit self = Some True \<longrightarrow>
         0 \<le> t (flip self) \<and> 0 \<le> vel (flip self) \<and>
         vel (flip self) \<le> 47 / 10 * (1 - t (flip self))) \<and>
      (drag_commit self = Some False \<longrightarrow>
         t (flip self) \<le> 1 \<and> vel (flip self) \<le> 0 \<and>
         - (47 / 10 * t (flip self)) \<le> vel (flip self)))"

text \<open>A frame with a positive time step of at most a sixtieth of a second.\<close>

fun small_dt :: "call \<Rightarrow> bool" where
  "small_dt (Frame dt mouse_x) = (0 < dt \<and> dt \<le> 1 / 60)"
| "small_dt (Event e mouse_y) = True"

subsection \<open>The spring as a linear recurrence\<close>

text \<open>
  With \<open>x\<close> the distance of the progress from the target and \<open>y = dt * vel\<close>, one
  step of the spring branch (lines 319-321) is \<open>y' = 0.86 * (y + 22 * dt\<^sup>2 * x)\<close>,
  \<open>x' = x - y'\<close>. With \<open>s = dt\<^sup>2\<close>, \<open>energy_form s\<close> is a quadratic form in \<open>(x, y)\<close>
  that this step shrinks by the factor \<open>energy_rate s\<close> as long as \<open>473 * s < 93\<close>.
\<close>

definition energy_form :: "real \<Rightarrow> real \<Rightarrow> real \<Rightarrow> real" where
  "energy_form s x y =
     93 * y\<^sup>2 + 1892 * s * x * (x + y) - 2 * (93 - 473 * s) * s * (x + y)\<^sup>2"

definition energy_rate :: "real \<Rightarrow> real" where
  "energy_rate s = 1 - (93 - 473 * s)\<^sup>2 * s / 25000"

definition spring_energy :: "real \<Rightarrow> real \<Rightarrow> BookAlbum \<Rightarrow> real" where
  "spring_energy dt tg self =
     energy_form (dt\<^sup>2) (tg - t (flip self)) (dt * vel (flip self))"

text \<open>The spring branch of \<^verbatim>\<open>update\<close> is taken, with \<^verbatim>\<open>_drag_commit\<close> equal to \<open>c\<close>.\<close>

definition spring_state :: "bool \<Rightarrow> BookAlbum \<Rightarrow> bool" where
  "spring_state c self =
     (\<not> dragging (flip self) \<and> flipping (flip self) \<and> drag_commit self = Some c)"

text \<open>
  A cancelled spring at one-second frames: progress and velocity on the same side of 0,
  the progress at least 1/2 away from it.
\<close>

definition diverging :: "BookAlbum \<Rightarrow> bool" where
  "diverging self =
     (spring_state False self \<and>
      ((1 / 2 \<le> t (flip self) \<and> 0 \<le> vel (flip self) \<and> vel (flip self) \<le> 2 * t (flip self)) \<or>
       (t (flip self) \<le> - (1 / 2) \<and> 2 * t (flip self) \<le> vel (flip self) \<and> vel (flip self) \<le> 0)))"

subsection \<open>The width of the turning leaf (\<^verbatim>\<open>draw_flip\<close>, lines 437-438 and 463-465)\<close>

text \<open>
  Both directions compute the width the same way: the stored progress is clamped, eased,
  turned into an angle, and the page width is scaled by the absolute cosine, truncated to
  an integer and floored at 8.
\<close>

definition leaf_w :: "real \<Rightarrow> int" where
  "leaf_w ft =
     (let tc = clamp ft 0 1;
          et = ease_out_cubic tc;
          angle = et * pi;
          scale_x = \<bar>cos angle\<bar>
      in max 8 (py_int (real_of_int page_w * scale_x)))"

text \<open>The progress at which the eased progress is 1/2 and the leaf is edge-on.\<close>

definition edge_on_progress :: real where
  "edge_on_progress = 1 - root 3 (1 / 2)"

subsection \<open>The geometry in numbers\<close>

lemma geometry:
  "spine_x = 600" "page_w = 509" "page_h = 560"
  "r_left left_rect = 80" "r_right left_rect = 589"
  "r_left right_rect = 611" "r_right right_rect = 1120"
  "r_top left_rect = 80" "r_top right_rect = 80"
  "r_width left_rect = 509" "r_width right_rect = 509"
  "r_height left_rect = 560" "r_height right_rect = 560"
  by (simp_all add: spine_x_def page_w_def page_h_def left_rect_def right_rect_def
      spread_rect_def book_rect_def inflate_def r_centerx_def r_right_def
      WINDOW_W_def WINDOW_H_def BOOK_MARGIN_def SPINE_W_def PAGE_GAP_def)

text \<open>The equations that evaluate a concrete run.\<close>

lemmas defs = run_def BookAlbum_new_def FlipState_new_def start_flip_def start_drag_def end_drag_def
  drag_to_t_def finish_flip_def update_def update_autoplay_def update_spring_def update_anim_def
  key_end_def can_next_def can_prev_def collidepoint_def clamp_def geometry
  FLIP_SPEED_def DRAG_SPRING_def DRAG_DAMP_def mode_of_def spring_target_def p4_def p6_def Let_def

subsection \<open>Reading the mode\<close>

lemma mode_of_Idle: "mode_of self = Idle \<longleftrightarrow> \<not> dragging (flip self) \<and> \<not> flipping (flip self)"
  by (simp add: mode_of_def split: option.splits)

lemma mode_of_Dragging: "mode_of self = Dragging \<longleftrightarrow> dragging (flip self)"
  by (simp add: mode_of_def split: option.splits)

lemma mode_of_Animating:
  "mode_of self = Animating \<longleftrightarrow> \<not> dragging (flip self) \<and> flipping (flip self) \<and> drag_commit self = None"
  by (simp add: mode_of_def split: option.splits)

lemma mode_of_Springing:
  "mode_of self = Springing x \<longleftrightarrow>
     \<not> dragging (flip self) \<and> flipping (flip self) \<and> (\<exists>c. drag_commit self = Some c \<and> spring_target c = x)"
  by (auto simp add: mode_of_def split: option.splits)

subsection \<open>Releasing a drag\<close>

text \<open>
  Claim C5. \<^verbatim>\<open>end_drag\<close> in Dragging mode commits exactly when the last pointer column
  has crossed the spine in the direction of travel: left of \<open>spine_x\<close> for a forward
  drag (direction 1), right of it for a backward drag (direction -1). It enters Springing
  with target 1 on commit and 0 on cancel, and with spring velocity 0.
\<close>

theorem end_drag_commit_iff_crossed:
  assumes "mode_of self = Dragging"
  shows "(direction (flip self) = 1 \<longrightarrow>
            drag_commit (end_drag self) = Some (drag_x (flip self) < real_of_int spine_x) \<and>
            mode_of (end_drag self) =
              Springing (if drag_x (flip self) < real_of_int spine_x then 1 else 0)) \<and>
         (direction (flip self) = - 1 \<longrightarrow>
            drag_commit (end_drag self) = Some (drag_x (flip self) > real_of_int spine_x) \<and>
            mode_of (end_drag self) =
              Springing (if drag_x (flip self) > real_of_int spine_x then 1 else 0)) \<and>
         vel (flip (end_drag self)) = 0"
proof -
  from assms have d: "dragging (flip self)"
    by (simp add: mode_of_Dragging)
  show ?thesis
    by (simp add: d end_drag_def mode_of_def spring_target_def Let_def)
qed

theorem end_drag_commit_iff_crossed_witness:
  "mode_of (dragging_example 500 1) = Dragging \<and>
   mode_of (end_drag (dragging_example 500 1)) = Springing 1 \<and>
   mode_of (end_drag (dragging_example 700 1)) = Springing 0 \<and>
   mode_of (end_drag (dragging_example 700 (- 1))) = Springing 1 \<and>
   mode_of (end_drag (dragging_example 500 (- 1))) = Springing 0 \<and>
   vel (flip (end_drag (dragging_example 500 1))) = 0"
  using end_drag_commit_iff_crossed [of "dragging_example 500 1"]
    end_drag_commit_iff_crossed [of "dragging_example 700 1"]
    end_drag_commit_iff_crossed [of "dragging_example 700 (- 1)"]
    end_drag_commit_iff_crossed [of "dragging_example 500 (- 1)"]
  by (simp add: dragging_example_def mode_of_Dragging geometry)

subsection \<open>HOME and END while a flip is running\<close>

text \<open>
  Claim C1 (the index stays at least 0, and a completed flip lands in the page range).
  \<^verbatim>\<open>handle_event\<close> assigns \<^verbatim>\<open>index\<close> on HOME and END without looking at the flip
  state, so a backward flip that was started at index 2 and meets HOME before it completes
  shifts from 0 to -2.
\<close>

theorem home_during_flip_negative_index:
  "index (run (BookAlbum_new p4)
     [Event (KEYDOWN K_RIGHT) 0, Frame 1 0, Event (KEYDOWN K_LEFT) 0,
      Event (KEYDOWN K_HOME) 0, Frame 1 0]) = - 2"
  by (simp add: defs)

text \<open>The same with END during a forward flip: six pages, index 6.\<close>

lemma end_during_flip_index_past_pages:
  "index (run (BookAlbum_new p6)
     [Event (KEYDOWN K_RIGHT) 0, Frame 1 0, Event (KEYDOWN K_RIGHT) 0,
      Event (KEYDOWN K_END) 0, Frame 1 0]) = 6"
  by (simp add: defs)

subsection \<open>Starting a drag during a drag\<close>

text \<open>
  Claim C6 (\<^verbatim>\<open>start_flip\<close> and \<^verbatim>\<open>start_drag\<close> do nothing unless the machine is Idle).
  \<^verbatim>\<open>start_drag\<close> tests \<^verbatim>\<open>flip.flipping\<close> only: in Dragging mode a second press in
  the other hot zone turns a forward drag into a backward one.
\<close>

theorem start_drag_while_dragging:
  "mode_of (run (BookAlbum_new p6)
     [Event (KEYDOWN K_RIGHT) 0, Frame 1 0, Event (MOUSEBUTTONDOWN 1 1100 300) 300]) = Dragging \<and>
   direction (flip (run (BookAlbum_new p6)
     [Event (KEYDOWN K_RIGHT) 0, Frame 1 0, Event (MOUSEBUTTONDOWN 1 1100 300) 300])) = 1 \<and>
   direction (flip (start_drag (run (BookAlbum_new p6)
     [Event (KEYDOWN K_RIGHT) 0, Frame 1 0, Event (MOUSEBUTTONDOWN 1 1100 300) 300]) 100 300)) = - 1"
  by (simp add: defs)

text \<open>
  The rest of the guard holds: \<^verbatim>\<open>start_flip\<close> changes nothing outside Idle or without a
  further page pair, and \<^verbatim>\<open>start_drag\<close> changes nothing while flipping or without a
  further page pair on either side.
\<close>

lemma start_flip_rejected:
  "mode_of self \<noteq> Idle \<Longrightarrow> start_flip self d = self"
  "\<not> can_next self \<Longrightarrow> start_flip self 1 = self"
  "\<not> can_prev self \<Longrightarrow> start_flip self (- 1) = self"
  by (auto simp add: start_flip_def mode_of_Idle)

lemma start_drag_rejected:
  "flipping (flip self) \<Longrightarrow> start_drag self mx my = self"
  "\<not> can_next self \<Longrightarrow> \<not> can_prev self \<Longrightarrow> start_drag self mx my = self"
  by (simp_all add: start_drag_def)

subsection \<open>A frame while dragging\<close>

text \<open>
  Claim C4 (after a drag update the progress is the normalised clamped distance). The
  dragging branch of \<^verbatim>\<open>update\<close> stores the clamped pointer column in \<^verbatim>\<open>drag_x\<close>
  and returns; \<^verbatim>\<open>flip.t\<close> stays 0 while \<^verbatim>\<open>drag_to_t\<close> of the stored column is 1/2.
\<close>

theorem drag_frame_keeps_progress:
  "mode_of (update (run (BookAlbum_new p4) [Event (MOUSEBUTTONDOWN 1 1100 300) 300]) (1 / 60) 600) = Dragging \<and>
   drag_x (flip (update (run (BookAlbum_new p4) [Event (MOUSEBUTTONDOWN 1 1100 300) 300]) (1 / 60) 600)) = 600 \<and>
   t (flip (update (run (BookAlbum_new p4) [Event (MOUSEBUTTONDOWN 1 1100 300) 300]) (1 / 60) 600)) = 0 \<and>
   drag_to_t 600 1 = 1 / 2"
  by (simp add: defs)

text \<open>
  What the frame does in Dragging mode is the clamp alone; the progress is taken from the
  stored column when the drag is released.
\<close>

lemma drag_frame_clamps_pointer:
  assumes "mode_of self = Dragging"
  shows "update self dt mx =
           self\<lparr>flip := (flip self)\<lparr>drag_x := real_of_int (clamp mx 80 1120)\<rparr>\<rparr>"
    and "t (flip (end_drag self)) = drag_to_t (drag_x (flip self)) (direction (flip self))"
proof -
  from assms have d: "dragging (flip self)"
    by (simp add: mode_of_Dragging)
  show "update self dt mx =
           self\<lparr>flip := (flip self)\<lparr>drag_x := real_of_int (clamp mx 80 1120)\<rparr>\<rparr>"
    by (simp add: d update_def update_autoplay_def geometry)
  show "t (flip (end_drag self)) = drag_to_t (drag_x (flip self)) (direction (flip self))"
    by (simp add: d end_drag_def Let_def)
qed

subsection \<open>The empty book\<close>

text \<open>
  Claim C10. With no pages, index 0 and no flip active, \<^verbatim>\<open>start_flip\<close> in either
  direction, \<^verbatim>\<open>start_drag\<close> at any pointer position, any frame \<^verbatim>\<open>update\<close> (an
  autoplay tick among them) and the END key leave the index 0 and the machine Idle, and
  both pages of the spread are the blank paper surface.
\<close>

theorem empty_book_commands:
  assumes "pages self = []" "index self = 0" "mode_of self = Idle"
  shows "blank_idle (start_flip self 1) \<and> blank_idle (start_flip self (- 1)) \<and>
         blank_idle (start_drag self mx my) \<and> blank_idle (update self dt mouse_x) \<and>
         blank_idle (handle_event self (KEYDOWN K_END) my)"
  using assms
  by (simp add: blank_idle_def mode_of_Idle start_flip_def start_drag_def update_def
      update_autoplay_def key_end_def can_next_def can_prev_def displayed_pages_def
      get_page_surface_def Let_def)

theorem empty_book_commands_witness:
  "pages (BookAlbum_new []) = [] \<and> index (BookAlbum_new []) = 0 \<and>
   mode_of (BookAlbum_new []) = Idle \<and>
   blank_idle (start_flip (BookAlbum_new []) 1) \<and>
   blank_idle (start_drag (BookAlbum_new []) 1100 300) \<and>
   blank_idle (update ((BookAlbum_new [])\<lparr>autoplay := True\<rparr>) 3 0) \<and>
   blank_idle (handle_event (BookAlbum_new []) (KEYDOWN K_END) 0)"
  using empty_book_commands [of "BookAlbum_new []" 1100 300 3 0]
    empty_book_commands [of "(BookAlbum_new [])\<lparr>autoplay := True\<rparr>" 1100 300 3 0]
  by (simp add: BookAlbum_new_def FlipState_new_def mode_of_Idle)

subsection \<open>Frames of an episode\<close>

lemma update_Animating:
  "mode_of self = Animating \<Longrightarrow> update self dt mx = update_anim self dt"
  by (simp add: mode_of_Animating update_def update_autoplay_def)

lemma update_Springing:
  "\<not> dragging (flip self) \<Longrightarrow> flipping (flip self) \<Longrightarrow> drag_commit self = Some c \<Longrightarrow>
   update self dt mx = update_spring self dt c"
  by (simp add: update_def update_autoplay_def)

lemma run_snoc: "run self (cs @ [c]) = apply_call (run self cs) c"
  by (simp add: run_def)

subsection \<open>The duration of a keyboard flip\<close>

text \<open>
  Claim C7 as stated (a full keyboard flip takes about 0.6 seconds of accumulated
  \<open>dt\<close>) fails: after frames of 1/2, 1/4, 1/8 and 1/16 seconds, 0.9375 seconds in all,
  the flip is still running at progress 0.9375. (These time steps and their sums are
  binary fractions, so float addition is exact on them.)
\<close>

theorem flip_unfinished_after_fifteen_sixteenths:
  "mode_of (run (BookAlbum_new p4)
      [Event (KEYDOWN K_RIGHT) 0, Frame (1 / 2) 0, Frame (1 / 4) 0, Frame (1 / 8) 0,
       Frame (1 / 16) 0]) = Animating \<and>
   t (flip (run (BookAlbum_new p4)
      [Event (KEYDOWN K_RIGHT) 0, Frame (1 / 2) 0, Frame (1 / 4) 0, Frame (1 / 8) 0,
       Frame (1 / 16) 0])) = 15 / 16"
  by (simp add: defs)

lemma anim_accumulates:
  "mode_of self = Animating \<Longrightarrow> \<forall>dt\<in>set dts. 0 < dt \<Longrightarrow> t (flip self) + sum_list dts < 1 \<Longrightarrow>
   run self (frames dts mx) = self\<lparr>flip := (flip self)\<lparr>t := t (flip self) + sum_list dts\<rparr>\<rparr>"
proof (induction dts rule: rev_induct)
  case Nil
  then show ?case by (simp add: frames_def run_def)
next
  case (snoc dt dts)
  have pos: "0 < dt" using snoc.prems(2) by simp
  have less: "t (flip self) + sum_list dts < 1" using snoc.prems(3) pos by simp
  have all: "\<forall>dt\<in>set dts. 0 < dt" using snoc.prems(2) by simp
  let ?s = "self\<lparr>flip := (flip self)\<lparr>t := t (flip self) + sum_list dts\<rparr>\<rparr>"
  have r: "run self (frames dts mx) = ?s"
    using snoc.IH [OF snoc.prems(1) all less] .
  have m: "mode_of ?s = Animating"
    using snoc.prems(1) by (simp add: mode_of_Animating)
  have "run self (frames (dts @ [dt]) mx) = update ?s dt mx"
    by (simp add: frames_def run_snoc r [unfolded frames_def])
  also have "\<dots> = update_anim ?s dt"
    by (rule update_Animating [OF m])
  also have "\<dots> = self\<lparr>flip := (flip self)\<lparr>t := t (flip self) + sum_list (dts @ [dt])\<rparr>\<rparr>"
    using snoc.prems(3) by (simp add: update_anim_def FLIP_SPEED_def Let_def add.assoc)
  finally show ?case .
qed

lemma anim_completes_within:
  "mode_of self = Animating \<Longrightarrow> t (flip self) < 1 \<Longrightarrow> 1 \<le> t (flip self) + sum_list dts \<Longrightarrow>
   \<not> flipping (flip (advance_episode self (map (\<lambda>d. (d, mx)) dts)))"
proof (induction dts arbitrary: self)
  case Nil
  then show ?case by simp
next
  case (Cons d dts)
  have f: "flipping (flip self)"
    using Cons.prems(1) by (simp add: mode_of_Animating)
  let ?s = "update self d mx"
  have step: "advance_episode self (map (\<lambda>d. (d, mx)) (d # dts)) =
              advance_episode ?s (map (\<lambda>d. (d, mx)) dts)"
    using f by simp
  show ?case
  proof (cases "1 \<le> t (flip self) + d")
    case True
    then have "?s = finish_flip (self\<lparr>flip := (flip self)\<lparr>t := 1\<rparr>\<rparr>)"
      using Cons.prems(1) by (simp add: update_Animating update_anim_def FLIP_SPEED_def Let_def)
    then have "\<not> flipping (flip ?s)"
      by (simp add: finish_flip_def FlipState_new_def Let_def)
    then have "advance_episode ?s (map (\<lambda>d. (d, mx)) dts) = ?s"
      by (cases dts) auto
    then show ?thesis
      unfolding step using \<open>\<not> flipping (flip ?s)\<close> by simp
  next
    case False
    then have u: "?s = self\<lparr>flip := (flip self)\<lparr>t := t (flip self) + d\<rparr>\<rparr>"
      using Cons.prems(1) by (simp add: update_Animating update_anim_def FLIP_SPEED_def Let_def)
    have m: "mode_of ?s = Animating"
      using Cons.prems(1) by (simp add: u mode_of_Animating)
    have l: "t (flip ?s) < 1"
      using False by (simp add: u)
    have "1 \<le> t (flip ?s) + sum_list dts"
      using Cons.prems(3) by (simp add: u algebra_simps)
    from Cons.IH [OF m l this] show ?thesis
      unfolding step .
  qed
qed

subsection \<open>The index at the end of an episode\<close>

lemma update_episode_step:
  assumes "flipping (flip self)" "\<not> dragging (flip self)"
  shows "(mode_of (update self dt mx) = Idle \<and> drag_commit (update self dt mx) = None \<and>
            index (update self dt mx) = index_after self) \<or>
         (flipping (flip (update self dt mx)) \<and> \<not> dragging (flip (update self dt mx)) \<and>
            index (update self dt mx) = index self \<and>
            direction (flip (update self dt mx)) = direction (flip self) \<and>
            drag_commit (update self dt mx) = drag_commit self)"
proof (cases "drag_commit self")
  case None
  then have "mode_of self = Animating"
    using assms by (simp add: mode_of_Animating)
  then have "update self dt mx = update_anim self dt"
    by (rule update_Animating)
  then show ?thesis
    using assms None
    by (simp add: update_anim_def finish_flip_def index_after_def mode_of_Idle
        FlipState_new_def Let_def)
next
  case (Some c)
  then have "update self dt mx = update_spring self dt c"
    using assms by (simp add: update_Springing)
  then show ?thesis
    using assms Some
    by (cases c) (simp_all add: update_spring_def finish_flip_def index_after_def mode_of_Idle
        FlipState_new_def spring_target_def Let_def)
qed

lemma advance_episode_result:
  assumes "flipping (flip self)" "\<not> dragging (flip self)"
  shows "(mode_of (advance_episode self fs) = Idle \<and>
            index (advance_episode self fs) = index_after self) \<or>
         (flipping (flip (advance_episode self fs)) \<and>
            index (advance_episode self fs) = index self)"
  using assms
proof (induction fs arbitrary: self)
  case Nil
  then show ?case by simp
next
  case (Cons f fs)
  obtain dt mx where f: "f = (dt, mx)" by (cases f)
  let ?s = "update self dt mx"
  from update_episode_step [OF Cons.prems, of dt mx]
  consider
    (fin) "mode_of ?s = Idle" "index ?s = index_after self"
  | (more) "flipping (flip ?s)" "\<not> dragging (flip ?s)" "index ?s = index self"
      "direction (flip ?s) = direction (flip self)" "drag_commit ?s = drag_commit self"
    by blast
  then show ?case
  proof cases
    case fin
    then have "\<not> flipping (flip ?s)" by (simp add: mode_of_Idle)
    then have "advance_episode ?s fs = ?s" by (cases fs) auto
    then show ?thesis using fin Cons.prems f by simp
  next
    case more
    have "index_after ?s = index_after self"
      using more by (simp add: index_after_def)
    then show ?thesis
      using Cons.IH [OF more(1,2)] more(3) Cons.prems f by simp
  qed
qed

subsection \<open>The rate of a keyboard flip\<close>

text \<open>
  Claim C7, amended. In Animating mode \<^verbatim>\<open>update(dt)\<close> adds \<open>dt * (FLIP_SPEED / 10) = dt * 1\<close>
  to the progress; when the sum reaches 1 the progress is set to 1 and \<^verbatim>\<open>finish_flip\<close>
  runs. So a full flip takes approximately 1.0 second of accumulated \<open>dt\<close>: a flip from
  progress 0 is still running, with the progress within a thousandth of the accumulated
  \<open>dt\<close>, while the accumulated \<open>dt\<close> is at most 0.999 seconds, and it has completed, the
  index shifted and the machine Idle, once the accumulated \<open>dt\<close> has reached 1.001
  seconds. The margin of a thousandth is what "approximately" stands for; it also absorbs
  the rounding of the float additions of line 327, which the exact sum of the model leaves
  out and which can move the completing frame by one when the sum comes within rounding
  of 1.
\<close>

theorem animating_rate_is_one_per_second:
  assumes "mode_of self = Animating"
  shows "update self dt mx =
           (if 1 \<le> t (flip self) + dt * 1
            then finish_flip (self\<lparr>flip := (flip self)\<lparr>t := 1\<rparr>\<rparr>)
            else self\<lparr>flip := (flip self)\<lparr>t := t (flip self) + dt * 1\<rparr>\<rparr>) \<and>
         FLIP_SPEED / 10 = 1 \<and>
         (t (flip self) = 0 \<and> (\<forall>d\<in>set dts. 0 < d) \<and> sum_list dts \<le> 999 / 1000 \<longrightarrow>
            mode_of (run self (frames dts mx)) = Animating \<and>
            \<bar>t (flip (run self (frames dts mx))) - sum_list dts\<bar> \<le> 1 / 1000) \<and>
         (t (flip self) = 0 \<and> (\<forall>d\<in>set dts. 0 < d) \<and> 1001 / 1000 \<le> sum_list dts \<longrightarrow>
            mode_of (advance_episode self (map (\<lambda>d. (d, mx)) dts)) = Idle \<and>
            index (advance_episode self (map (\<lambda>d. (d, mx)) dts)) = index_after self)"
proof -
  have a: "update self dt mx =
           (if 1 \<le> t (flip self) + dt * 1
            then finish_flip (self\<lparr>flip := (flip self)\<lparr>t := 1\<rparr>\<rparr>)
            else self\<lparr>flip := (flip self)\<lparr>t := t (flip self) + dt * 1\<rparr>\<rparr>)"
    by (simp add: update_Animating [OF assms] update_anim_def FLIP_SPEED_def Let_def)
  have b: "FLIP_SPEED / 10 = 1"
    by (simp add: FLIP_SPEED_def)
  have c: "mode_of (run self (frames dts mx)) = Animating \<and>
           \<bar>t (flip (run self (frames dts mx))) - sum_list dts\<bar> \<le> 1 / 1000"
    if h: "t (flip self) = 0" "\<forall>d\<in>set dts. 0 < d" "sum_list dts \<le> 999 / 1000"
  proof -
    have "run self (frames dts mx) = self\<lparr>flip := (flip self)\<lparr>t := t (flip self) + sum_list dts\<rparr>\<rparr>"
      using anim_accumulates [OF assms h(2)] h(1,3) by simp
    then show ?thesis using assms h(1) by (simp add: mode_of_Animating)
  qed
  have d: "mode_of (advance_episode self (map (\<lambda>d. (d, mx)) dts)) = Idle \<and>
           index (advance_episode self (map (\<lambda>d. (d, mx)) dts)) = index_after self"
    if h: "t (flip self) = 0" "\<forall>d\<in>set dts. 0 < d" "1001 / 1000 \<le> sum_list dts"
  proof -
    have "\<not> flipping (flip (advance_episode self (map (\<lambda>d. (d, mx)) dts)))"
      using h(1,3) by (intro anim_completes_within [OF assms]) simp_all
    moreover have "flipping (flip self)" "\<not> dragging (flip self)"
      using assms by (simp_all add: mode_of_Animating)
    ultimately show ?thesis
      using advance_episode_result [of self "map (\<lambda>d. (d, mx)) dts"] by auto
  qed
  from a b c d show ?thesis by blast
qed

theorem animating_rate_is_one_per_second_witness:
  "mode_of animating_example = Animating \<and>
   t (flip (update animating_example (1 / 2) 0)) = 1 / 2 \<and>
   mode_of (run animating_example (frames [1 / 2, 1 / 4, 1 / 8, 1 / 16] 0)) = Animating \<and>
   \<bar>t (flip (run animating_example (frames [1 / 2, 1 / 4, 1 / 8, 1 / 16] 0))) - 15 / 16\<bar> \<le> 1 / 1000 \<and>
   mode_of (advance_episode animating_example
      (map (\<lambda>d. (d, 0)) [1 / 2, 1 / 4, 1 / 8, 1 / 16, 1 / 8])) = Idle \<and>
   index (advance_episode animating_example
      (map (\<lambda>d. (d, 0)) [1 / 2, 1 / 4, 1 / 8, 1 / 16, 1 / 8])) = 2"
proof -
  have m: "mode_of animating_example = Animating"
    by (simp add: animating_example_def defs)
  have t0: "t (flip animating_example) = 0"
    by (simp add: animating_example_def defs)
  have i: "index_after animating_example = 2"
    by (simp add: animating_example_def index_after_def defs)
  from animating_rate_is_one_per_second [OF m, of "1 / 2" 0 "[1 / 2, 1 / 4, 1 / 8, 1 / 16]"]
    animating_rate_is_one_per_second [OF m, of "1 / 2" 0 "[1 / 2, 1 / 4, 1 / 8, 1 / 16, 1 / 8]"]
    m t0 i
  show ?thesis by (simp add: FLIP_SPEED_def)
qed

subsection \<open>The range of the stored progress\<close>

text \<open>
  Claim C3 (after every frame with a positive time step and after every drag update the
  stored progress lies in the unit interval, the spring step included). The field is
  declared as \<^verbatim>\<open>t: float = 0.0  # 0..1 animation progress\<close>, but the spring branch of
  \<^verbatim>\<open>update\<close> adds \<^verbatim>\<open>vel * dt\<close> to it without a clamp (line 321). A forward drag on a
  four-page book released at the spine springs back towards 0, and after four frames of a
  tenth of a second the stored progress is below 0 with the spring still running.
\<close>

theorem spring_step_leaves_unit_interval:
  "mode_of (run (BookAlbum_new p4)
      [Event (MOUSEBUTTONDOWN 1 1100 300) 300, Frame (1 / 60) 600,
       Event (MOUSEBUTTONUP 1) 300, Frame (1 / 10) 600, Frame (1 / 10) 600,
       Frame (1 / 10) 600, Frame (1 / 10) 600]) = Springing 0 \<and>
   t (flip (run (BookAlbum_new p4)
      [Event (MOUSEBUTTONDOWN 1 1100 300) 300, Frame (1 / 60) 600,
       Event (MOUSEBUTTONUP 1) 300, Frame (1 / 10) 600, Frame (1 / 10) 600,
       Frame (1 / 10) 600, Frame (1 / 10) 600])) < 0"
  by (simp add: defs)

lemma progress_ok_new: "progress_ok (BookAlbum_new ps)"
  by (simp add: progress_ok_def BookAlbum_new_def FlipState_new_def)

lemma progress_ok_start_flip: "progress_ok self \<Longrightarrow> progress_ok (start_flip self d)"
  by (auto simp add: progress_ok_def start_flip_def)

lemma progress_ok_start_drag: "progress_ok self \<Longrightarrow> progress_ok (start_drag self mx my)"
  by (auto simp add: progress_ok_def start_drag_def)

lemma drag_to_t_unit: "0 \<le> drag_to_t x d \<and> drag_to_t x d \<le> 1"
  by (simp add: drag_to_t_def clamp_def Let_def)

lemma progress_ok_end_drag: "progress_ok self \<Longrightarrow> progress_ok (end_drag self)"
  by (simp add: progress_ok_def end_drag_def Let_def)

lemma progress_ok_handle_event: "progress_ok self \<Longrightarrow> progress_ok (handle_event self e my)"
proof (cases e)
  case (KEYDOWN k)
  assume p: "progress_ok self"
  have "progress_ok (self\<lparr>index := i\<rparr>)" for i
    using p by (simp add: progress_ok_def)
  moreover have "progress_ok (key_end self)"
    using p by (simp add: progress_ok_def key_end_def Let_def)
  moreover have "progress_ok (self\<lparr>autoplay := b, autoplay_timer := x\<rparr>)" for b x
    using p by (simp add: progress_ok_def)
  ultimately show ?thesis
    using KEYDOWN p by (simp add: progress_ok_start_flip)
next
  case (MOUSEBUTTONDOWN b mx my')
  then show "progress_ok self \<Longrightarrow> ?thesis" by (simp add: progress_ok_start_drag)
next
  case (MOUSEBUTTONUP b)
  then show "progress_ok self \<Longrightarrow> ?thesis" by (simp add: progress_ok_end_drag)
next
  case OTHER_EVENT
  then show "progress_ok self \<Longrightarrow> ?thesis" by simp
qed

lemma progress_ok_update_autoplay: "progress_ok self \<Longrightarrow> progress_ok (update_autoplay self dt)"
proof -
  assume p: "progress_ok self"
  have a: "progress_ok (self\<lparr>autoplay_timer := x\<rparr>)" for x
    using p by (simp add: progress_ok_def)
  have b: "progress_ok (self\<lparr>autoplay_timer := x, index := 0\<rparr>)" for x
    using p by (simp add: progress_ok_def)
  show ?thesis
    by (simp add: update_autoplay_def Let_def a b p progress_ok_start_flip)
qed

lemma progress_ok_finish_flip: "drag_commit self = None \<Longrightarrow> progress_ok (finish_flip self)"
  by (simp add: progress_ok_def finish_flip_def FlipState_new_def Let_def)

lemma progress_ok_update_spring:
  "progress_ok self \<Longrightarrow> drag_commit self = Some c \<Longrightarrow> progress_ok (update_spring self dt c)"
  by (simp add: update_spring_def Let_def progress_ok_finish_flip) (simp add: progress_ok_def)

lemma progress_ok_update_anim:
  "progress_ok self \<Longrightarrow> drag_commit self = None \<Longrightarrow> 0 < dt \<Longrightarrow> progress_ok (update_anim self dt)"
  by (simp add: update_anim_def Let_def progress_ok_finish_flip FLIP_SPEED_def)
     (simp add: progress_ok_def)

lemma progress_ok_update:
  assumes "progress_ok self" "0 < dt"
  shows "progress_ok (update self dt mx)"
proof -
  let ?s = "update_autoplay self dt"
  have p: "progress_ok ?s" using assms(1) by (rule progress_ok_update_autoplay)
  have d: "progress_ok (?s\<lparr>flip := (flip ?s)\<lparr>drag_x := x\<rparr>\<rparr>)" if "dragging (flip ?s)" for x
    using p that by (auto simp add: progress_ok_def)
  show ?thesis
    using p d assms(2)
    by (simp add: update_def Let_def progress_ok_update_spring progress_ok_update_anim
        split: option.splits)
qed

lemma progress_ok_run:
  "progress_ok self \<Longrightarrow> \<forall>c\<in>set cs. positive_dt c \<Longrightarrow> progress_ok (run self cs)"
proof (induction cs rule: rev_induct)
  case Nil
  then show ?case by (simp add: run_def)
next
  case (snoc c cs)
  then have p: "progress_ok (run self cs)" by simp
  show ?case
  proof (cases c)
    case (Event e my)
    then show ?thesis using p by (simp add: run_snoc progress_ok_handle_event)
  next
    case (Frame dt mx)
    then have "0 < dt" using snoc.prems(2) by simp
    then show ?thesis using p Frame by (simp add: run_snoc progress_ok_update)
  qed
qed

text \<open>
  Outside the spring the bound holds: after any sequence of events and frames with
  positive time steps on a new album, the stored progress lies in the unit interval
  whenever the machine is Idle, Dragging or Animating, and the progress \<^verbatim>\<open>draw_flip\<close>
  works with, the stored one clamped, lies in it in every mode.
\<close>

lemma progress_in_unit_interval_outside_spring:
  assumes "\<forall>c\<in>set cs. positive_dt c"
  shows "((mode_of (run (BookAlbum_new ps) cs) = Idle \<or>
           mode_of (run (BookAlbum_new ps) cs) = Dragging \<or>
           mode_of (run (BookAlbum_new ps) cs) = Animating) \<longrightarrow>
            0 \<le> t (flip (run (BookAlbum_new ps) cs)) \<and> t (flip (run (BookAlbum_new ps) cs)) \<le> 1) \<and>
         0 \<le> draw_t (run (BookAlbum_new ps) cs) \<and> draw_t (run (BookAlbum_new ps) cs) \<le> 1"
proof -
  let ?s = "run (BookAlbum_new ps) cs"
  have p: "progress_ok ?s"
    using progress_ok_new assms by (rule progress_ok_run)
  have n: "drag_commit ?s = None"
    if "mode_of ?s = Idle \<or> mode_of ?s = Dragging \<or> mode_of ?s = Animating"
    using that p by (auto simp add: mode_of_Idle mode_of_Dragging mode_of_Animating progress_ok_def)
  have "0 \<le> draw_t ?s \<and> draw_t ?s \<le> 1"
    by (simp add: draw_t_def clamp_def)
  then show ?thesis
    using n p by (auto simp add: progress_ok_def)
qed

subsection \<open>The spring at small time steps\<close>

lemma settling_no_spring: "drag_commit self = None \<Longrightarrow> settling self \<longleftrightarrow> progress_ok self"
  by (simp add: settling_def)

lemma settling_same_flip:
  "drag_commit self' = drag_commit self \<Longrightarrow> flip self' = flip self \<Longrightarrow> settling self' = settling self"
  by (simp add: settling_def progress_ok_def)

lemma settling_progress_ok: "settling self \<Longrightarrow> progress_ok self"
  by (simp add: settling_def)

lemma settling_spring_flipping:
  "settling self \<Longrightarrow> drag_commit self = Some c \<Longrightarrow> flipping (flip self) \<and> \<not> dragging (flip self)"
  by (simp add: settling_def progress_ok_def)

lemma cone_step:
  fixes x v dt :: real
  assumes "0 \<le> v" "v \<le> 47 / 10 * x" "0 < dt" "dt \<le> 1 / 60"
  defines "w \<equiv> (v + x * 22 * dt) * (86 / 100)"
  shows "0 \<le> w" "0 \<le> w * dt" "w \<le> 47 / 10 * (x - w * dt)"
proof -
  have x: "0 \<le> x" using assms(1,2) by argo
  have hx: "0 \<le> x * dt" "x * dt \<le> x * (1 / 60)"
    using x assms(3) mult_left_mono [OF assms(4) x] by simp_all
  have w: "w = (43 / 50) * v + (473 / 25) * (x * dt)"
    unfolding w_def by (simp add: field_simps)
  show w0: "0 \<le> w"
    unfolding w using assms(1) hx(1) by argo
  have hw: "0 \<le> w * dt" "w * dt \<le> w * (1 / 60)"
    using w0 assms(3) mult_left_mono [OF assms(4) w0] by simp_all
  show "0 \<le> w * dt" by (rule hw(1))
  have "w \<le> (43 / 50) * (47 / 10 * x) + (473 / 25) * (x * (1 / 60))"
    unfolding w using assms(2) hx(2) by argo
  then show "w \<le> 47 / 10 * (x - w * dt)"
    using hw(2) x by argo
qed

lemma cone_forward:
  fixes T v dt :: real
  assumes "0 \<le> T" "0 \<le> v" "v \<le> 47 / 10 * (1 - T)" "0 < dt" "dt \<le> 1 / 60"
  shows "0 \<le> T + (v + (1 - T) * 22 * dt) * (86 / 100) * dt \<and>
         0 \<le> (v + (1 - T) * 22 * dt) * (86 / 100) \<and>
         (v + (1 - T) * 22 * dt) * (86 / 100)
           \<le> 47 / 10 * (1 - (T + (v + (1 - T) * 22 * dt) * (86 / 100) * dt))"
proof -
  define w where "w = (v + (1 - T) * 22 * dt) * (86 / 100)"
  define wd where "wd = w * dt"
  have a: "0 \<le> w" "0 \<le> wd" "w \<le> 47 / 10 * (1 - T - wd)"
    unfolding wd_def w_def by (rule cone_step [OF assms(2-5)])+
  have b: "0 \<le> T + wd"
    using assms(1) a(2) by simp
  have c: "w \<le> 47 / 10 * (1 - (T + wd))"
    using a(3) by (simp only: diff_diff_eq)
  have "0 \<le> T + wd \<and> 0 \<le> w \<and> w \<le> 47 / 10 * (1 - (T + wd))"
    using a(1) b c by blast
  then show ?thesis
    unfolding wd_def w_def .
qed

lemma cone_backward:
  fixes T v dt :: real
  assumes "T \<le> 1" "v \<le> 0" "- (47 / 10 * T) \<le> v" "0 < dt" "dt \<le> 1 / 60"
  shows "T + (v + (0 - T) * 22 * dt) * (86 / 100) * dt \<le> 1 \<and>
         (v + (0 - T) * 22 * dt) * (86 / 100) \<le> 0 \<and>
         - (47 / 10 * (T + (v + (0 - T) * 22 * dt) * (86 / 100) * dt))
           \<le> (v + (0 - T) * 22 * dt) * (86 / 100)"
proof -
  define w where "w = (- v + T * 22 * dt) * (86 / 100)"
  define wd where "wd = w * dt"
  have e: "(v + (0 - T) * 22 * dt) * (86 / 100) = - w"
    unfolding w_def by (simp add: field_simps)
  have e': "- w * dt = - wd"
    unfolding wd_def by simp
  have h: "0 \<le> - v" "- v \<le> 47 / 10 * T"
    using assms(2,3) by linarith+
  have a: "0 \<le> w" "0 \<le> wd" "w \<le> 47 / 10 * (T - wd)"
    unfolding wd_def w_def by (rule cone_step [OF h assms(4,5)])+
  have b: "T + - wd \<le> 1"
    using assms(1) a(2) by simp
  have c: "- (47 / 10 * (T + - wd)) \<le> - w"
    using a(3) by simp
  have d: "- w \<le> 0"
    using a(1) by simp
  have "T + - wd \<le> 1 \<and> - w \<le> 0 \<and> - (47 / 10 * (T + - wd)) \<le> - w"
    using b c d by blast
  then show ?thesis
    unfolding e e' .
qed

lemma settling_update_spring:
  assumes "settling self" "drag_commit self = Some c" "0 < dt" "dt \<le> 1 / 60"
  shows "settling (update_spring self dt c)"
proof -
  let ?x = "spring_target c - t (flip self)"
  let ?v = "(vel (flip self) + ?x * DRAG_SPRING * dt) * DRAG_DAMP"
  let ?t1 = "t (flip self) + ?v * dt"
  have p: "progress_ok (update_spring self dt c)"
    using settling_progress_ok [OF assms(1)] assms(2) by (rule progress_ok_update_spring)
  have u0: "update_spring self dt c =
      (if \<bar>spring_target c - ?t1\<bar> < 2 / 1000 \<and> \<bar>?v\<bar> < 1 / 100
       then finish_flip (self\<lparr>flip := (flip self)\<lparr>vel := ?v, t := spring_target c\<rparr>, drag_commit := None\<rparr>)
       else self\<lparr>flip := (flip self)\<lparr>vel := ?v, t := ?t1\<rparr>\<rparr>)"
    unfolding update_spring_def Let_def ..
  have s: "settling (update_spring self dt c) \<longleftrightarrow>
      (if c then 0 \<le> T \<and> 0 \<le> V \<and> V \<le> 47 / 10 * (1 - T)
       else T \<le> 1 \<and> V \<le> 0 \<and> - (47 / 10 * T) \<le> V)"
    if "update_spring self dt c = self\<lparr>flip := (flip self)\<lparr>vel := V, t := T\<rparr>\<rparr>" for V T
    using assms(2) p by (simp add: settling_def that)
  show ?thesis
  proof (cases "\<bar>spring_target c - ?t1\<bar> < 2 / 1000 \<and> \<bar>?v\<bar> < 1 / 100")
    case True
    have "update_spring self dt c =
        finish_flip (self\<lparr>flip := (flip self)\<lparr>vel := ?v, t := spring_target c\<rparr>, drag_commit := None\<rparr>)"
      by (rule trans [OF u0 if_P [OF True]])
    then have "drag_commit (update_spring self dt c) = None"
      by (simp add: finish_flip_def Let_def)
    then show ?thesis
      using p by (simp add: settling_no_spring)
  next
    case False
    have u: "update_spring self dt c = self\<lparr>flip := (flip self)\<lparr>vel := ?v, t := ?t1\<rparr>\<rparr>"
      by (rule trans [OF u0 if_not_P [OF False]])
    show ?thesis
    proof (cases c)
      case True
      have k: "spring_target c = 1" "DRAG_SPRING = 22" "DRAG_DAMP = 86 / 100"
        using True by (simp_all add: spring_target_def DRAG_SPRING_def DRAG_DAMP_def)
      from assms(1,2) True
      have h: "0 \<le> t (flip self)" "0 \<le> vel (flip self)"
        "vel (flip self) \<le> 47 / 10 * (1 - t (flip self))"
        by (simp_all add: settling_def)
      have "0 \<le> ?t1 \<and> 0 \<le> ?v \<and> ?v \<le> 47 / 10 * (1 - ?t1)"
        unfolding k by (rule cone_forward [OF h assms(3,4)])
      then show ?thesis
        unfolding s [OF u] using True by simp
    next
      case False
      have k: "spring_target c = 0" "DRAG_SPRING = 22" "DRAG_DAMP = 86 / 100"
        using False by (simp_all add: spring_target_def DRAG_SPRING_def DRAG_DAMP_def)
      from assms(1,2) False
      have h: "t (flip self) \<le> 1" "vel (flip self) \<le> 0"
        "- (47 / 10 * t (flip self)) \<le> vel (flip self)"
        by (simp_all add: settling_def)
      have "?t1 \<le> 1 \<and> ?v \<le> 0 \<and> - (47 / 10 * ?t1) \<le> ?v"
        unfolding k by (rule cone_backward [OF h assms(3,4)])
      then show ?thesis
        unfolding s [OF u] using False by simp
    qed
  qed
qed

lemma settling_new: "settling (BookAlbum_new ps)"
  using progress_ok_new [of ps] by (simp add: settling_def BookAlbum_new_def)

lemma settling_start_flip:
  assumes "settling self"
  shows "settling (start_flip self d)"
proof (cases "drag_commit self")
  case None
  then have "drag_commit (start_flip self d) = None"
    by (simp add: start_flip_def)
  then show ?thesis
    using assms by (simp add: settling_no_spring None progress_ok_start_flip)
next
  case (Some c)
  then have "start_flip self d = self"
    using settling_spring_flipping [OF assms Some] by (simp add: start_flip_def)
  then show ?thesis using assms by simp
qed

lemma settling_start_drag:
  assumes "settling self"
  shows "settling (start_drag self mx my)"
proof (cases "drag_commit self")
  case None
  then have "drag_commit (start_drag self mx my) = None"
    by (simp add: start_drag_def)
  then show ?thesis
    using assms by (simp add: settling_no_spring None progress_ok_start_drag)
next
  case (Some c)
  then have "start_drag self mx my = self"
    using settling_spring_flipping [OF assms Some] by (simp add: start_drag_def)
  then show ?thesis using assms by simp
qed

lemma settling_end_drag:
  assumes "settling self"
  shows "settling (end_drag self)"
proof (cases "dragging (flip self)")
  case False
  then show ?thesis using assms by (simp add: end_drag_def)
next
  case True
  have p: "progress_ok (end_drag self)"
    using settling_progress_ok [OF assms] by (rule progress_ok_end_drag)
  have "0 \<le> drag_to_t x d" "0 \<le> 47 / 10 * (1 - drag_to_t x d)"
    "drag_to_t x d \<le> 1" "- (47 / 10 * drag_to_t x d) \<le> 0" for x d
    using drag_to_t_unit [of x d] by simp_all
  then show ?thesis
    using True p by (simp add: settling_def end_drag_def Let_def)
qed

lemma settling_handle_event:
  assumes "settling self"
  shows "settling (handle_event self e my)"
proof (cases e)
  case (KEYDOWN k)
  have "settling (self\<lparr>index := i\<rparr>)" for i
    using assms settling_same_flip [of "self\<lparr>index := i\<rparr>" self] by simp
  moreover have "settling (key_end self)"
    using assms settling_same_flip [of "key_end self" self] by (simp add: key_end_def Let_def)
  moreover have "settling (self\<lparr>autoplay := b, autoplay_timer := x\<rparr>)" for b x
    using assms settling_same_flip [of "self\<lparr>autoplay := b, autoplay_timer := x\<rparr>" self] by simp
  ultimately show ?thesis
    using KEYDOWN assms by (simp add: settling_start_flip)
next
  case (MOUSEBUTTONDOWN b mx my')
  then show ?thesis using assms by (simp add: settling_start_drag)
next
  case (MOUSEBUTTONUP b)
  then show ?thesis using assms by (simp add: settling_end_drag)
next
  case OTHER_EVENT
  then show ?thesis using assms by simp
qed

lemma settling_update_autoplay:
  assumes "settling self"
  shows "settling (update_autoplay self dt)"
proof (cases "drag_commit self")
  case None
  then have "drag_commit (update_autoplay self dt) = None"
    by (simp add: update_autoplay_def Let_def start_flip_def)
  then show ?thesis
    using assms by (simp add: settling_no_spring None progress_ok_update_autoplay)
next
  case (Some c)
  then have "update_autoplay self dt = self"
    using settling_spring_flipping [OF assms Some] by (simp add: update_autoplay_def)
  then show ?thesis using assms by simp
qed

lemma settling_update:
  assumes "settling self" "0 < dt" "dt \<le> 1 / 60"
  shows "settling (update self dt mx)"
proof -
  let ?s = "update_autoplay self dt"
  have s: "settling ?s" using assms(1) by (rule settling_update_autoplay)
  have p: "progress_ok (update self dt mx)"
    using settling_progress_ok [OF assms(1)] assms(2) by (rule progress_ok_update)
  show ?thesis
  proof (cases "drag_commit ?s")
    case None
    then have "drag_commit (update self dt mx) = None"
      by (simp add: update_def Let_def update_anim_def finish_flip_def)
    then show ?thesis
      using p by (simp add: settling_no_spring)
  next
    case (Some c)
    then have "update self dt mx = update_spring ?s dt c"
      using settling_spring_flipping [OF s Some] by (simp add: update_def Let_def)
    then show ?thesis
      using settling_update_spring [OF s Some assms(2,3)] by simp
  qed
qed

lemma small_dt_positive: "small_dt c \<Longrightarrow> positive_dt c"
  by (cases c) simp_all

lemma settling_run:
  "settling self \<Longrightarrow> \<forall>c\<in>set cs. small_dt c \<Longrightarrow> settling (run self cs)"
proof (induction cs rule: rev_induct)
  case Nil
  then show ?case by (simp add: run_def)
next
  case (snoc c cs)
  then have p: "settling (run self cs)" by simp
  show ?case
  proof (cases c)
    case (Event e my)
    then show ?thesis using p by (simp add: run_snoc settling_handle_event)
  next
    case (Frame dt mx)
    then have "0 < dt" "dt \<le> 1 / 60" using snoc.prems(2) by simp_all
    then show ?thesis using p Frame by (simp add: run_snoc settling_update)
  qed
qed

lemma settling_unit_interval:
  assumes "settling self"
  shows "0 \<le> t (flip self) \<and> t (flip self) \<le> 1"
proof (cases "drag_commit self")
  case None
  then show ?thesis
    using assms by (simp add: settling_def progress_ok_def)
next
  case (Some c)
  show ?thesis
  proof (cases c)
    case True
    then have h: "0 \<le> t (flip self)" "0 \<le> vel (flip self)"
      "vel (flip self) \<le> 47 / 10 * (1 - t (flip self))"
      using assms Some by (simp_all add: settling_def)
    from h(2,3) have "0 \<le> 47 / 10 * (1 - t (flip self))" by (rule order_trans)
    then have "t (flip self) \<le> 1" by simp
    then show ?thesis using h(1) by simp
  next
    case False
    then have h: "t (flip self) \<le> 1" "vel (flip self) \<le> 0"
      "- (47 / 10 * t (flip self)) \<le> vel (flip self)"
      using assms Some by (simp_all add: settling_def)
    from h(3,2) have "- (47 / 10 * t (flip self)) \<le> 0" by (rule order_trans)
    then have "0 \<le> t (flip self)" by simp
    then show ?thesis using h(1) by simp
  qed
qed

text \<open>
  At small time steps the spring stays in range: after any sequence of events and frames
  on a new album in which every frame has a positive time step of at most a sixtieth of a
  second, the stored progress lies in the unit interval in every mode, the spring
  included. An excursion below 0 or above 1 needs longer frames.
\<close>

lemma progress_in_unit_interval_at_small_dt:
  assumes "\<forall>c\<in>set cs. small_dt c"
  shows "0 \<le> t (flip (run (BookAlbum_new ps) cs)) \<and> t (flip (run (BookAlbum_new ps) cs)) \<le> 1"
  using settling_new assms by (rule settling_unit_interval [OF settling_run])

subsection \<open>Termination of the spring\<close>

lemma quad_form_nonneg:
  fixes A B C x y :: real
  assumes "0 < A" "B\<^sup>2 \<le> 4 * A * C"
  shows "0 \<le> A * x\<^sup>2 + B * x * y + C * y\<^sup>2"
proof -
  have "4 * A * (A * x\<^sup>2 + B * x * y + C * y\<^sup>2) =
          (2 * A * x + B * y)\<^sup>2 + (4 * A * C - B\<^sup>2) * y\<^sup>2"
    by (simp add: power2_eq_square algebra_simps)
  moreover have "0 \<le> (2 * A * x + B * y)\<^sup>2 + (4 * A * C - B\<^sup>2) * y\<^sup>2"
    using assms(2) by simp
  ultimately have "0 \<le> 4 * A * (A * x\<^sup>2 + B * x * y + C * y\<^sup>2)"
    by simp
  then show ?thesis
    using assms(1) by (simp add: zero_le_mult_iff)
qed

lemma energy_step:
  fixes s x y :: real
  assumes "0 < s" "473 * s < 93"
  shows "energy_form s (x - (43 / 50) * (y + 22 * s * x)) ((43 / 50) * (y + 22 * s * x))
           \<le> energy_rate s * energy_form s x y"
proof -
  define u where "u = 93 - 473 * s"
  have u: "0 < u" using assms(2) by (simp add: u_def)
  define A2 where "A2 =
     (23944463 / 10054462500) * u ^ 3 +
     (6762656483 / 1675743750) * s * u ^ 2 +
     (350382658087 / 167574375) * s ^ 2 * u +
     (165730997275151 / 502723125) * s ^ 3"
  define B1 where "B1 =
     (75423 / 625) +
     (853838 / 625) * s +
     (29340663 / 6250) * s ^ 2 +
     (-21701713 / 3125) * s ^ 3 +
     (-105823817 / 6250) * s ^ 4"
  define C where "C =
     (7 / 2010892500) * u ^ 5 +
     (106901 / 20108925000) * s * u ^ 4 +
     (3954353 / 1005446250) * s ^ 2 * u ^ 3 +
     (38582289779 / 20108925000) * s ^ 3 * u ^ 2 +
     (244558841087 / 402178500) * s ^ 4 * u +
     (165730997275151 / 2010892500) * s ^ 5"
  define Q where "Q =
     (5720623 / 21645023437500) * u ^ 4 +
     (351565881707 / 649350703125000) * s * u ^ 3 +
     (8846834506609 / 21645023437500) * s ^ 2 * u ^ 2 +
     (3028743570777991 / 21645023437500) * s ^ 3 * u +
     (91700147087912 / 5194805625) * s ^ 4"
  have id: "energy_rate s * energy_form s x y
             - energy_form s (x - (43 / 50) * (y + 22 * s * x)) ((43 / 50) * (y + 22 * s * x))
           = (s\<^sup>2 * A2) * x\<^sup>2 + (s * B1) * x * y + C * y\<^sup>2"
    unfolding energy_form_def energy_rate_def A2_def B1_def C_def u_def
    by algebra
  have d: "4 * (s\<^sup>2 * A2) * C - (s * B1)\<^sup>2 = s\<^sup>2 * u\<^sup>2 * Q"
    unfolding A2_def B1_def C_def Q_def u_def
    by algebra
  have s0: "0 \<le> s" using assms(1) by simp
  have u0: "0 \<le> u" using u by simp
  have "0 < (23944463 / 10054462500) * u ^ 3" using u by simp
  moreover have "0 \<le> (6762656483 / 1675743750) * s * u ^ 2" using s0 u0 by simp
  moreover have "0 \<le> (350382658087 / 167574375) * s ^ 2 * u" using s0 u0 by simp
  moreover have "0 \<le> (165730997275151 / 502723125) * s ^ 3" using s0 by simp
  ultimately have "0 < A2" unfolding A2_def by linarith
  then have Apos: "0 < s\<^sup>2 * A2" using assms(1) by simp
  have "0 \<le> Q"
    unfolding Q_def using s0 u0 by (intro add_nonneg_nonneg mult_nonneg_nonneg) simp_all
  then have "0 \<le> s\<^sup>2 * u\<^sup>2 * Q" by simp
  then have "(s * B1)\<^sup>2 \<le> 4 * (s\<^sup>2 * A2) * C" using d by linarith
  from quad_form_nonneg [OF Apos this, of x y] id show ?thesis by linarith
qed

lemma energy_bounds:
  fixes s x y :: real
  assumes "0 < s" "473 * s < 93"
  shows "10 * (93 - 473 * s) * s * x\<^sup>2 \<le> energy_form s x y"
    and "(93 - 473 * s) * y\<^sup>2 / 2 \<le> energy_form s x y"
proof -
  define u where "u = 93 - 473 * s"
  have u: "0 < u" "u < 93" using assms by (simp_all add: u_def)
  have us: "0 \<le> u * s" using u(1) assms(1) by simp
  have a1: "0 < (1892 - 12 * u) * s" using u assms(1) by simp
  have "4 * ((1892 - 12 * u) * s) * (93 - 2 * u * s) - ((1892 - 4 * u) * s)\<^sup>2
          = s * u * (3104 + 80 * (u * s))"
    unfolding u_def by algebra
  moreover have "0 \<le> s * u * (3104 + 80 * (u * s))"
    using us u(1) assms(1) by simp
  ultimately have d1: "((1892 - 4 * u) * s)\<^sup>2 \<le> 4 * ((1892 - 12 * u) * s) * (93 - 2 * u * s)"
    by linarith
  have "energy_form s x y - 10 * u * s * x\<^sup>2
          = ((1892 - 12 * u) * s) * x\<^sup>2 + ((1892 - 4 * u) * s) * x * y + (93 - 2 * u * s) * y\<^sup>2"
    unfolding energy_form_def u_def by algebra
  with quad_form_nonneg [OF a1 d1, of x y]
  show "10 * (93 - 473 * s) * s * x\<^sup>2 \<le> energy_form s x y"
    unfolding u_def by linarith
  have a2: "0 < (1892 - 2 * u) * s" using u assms(1) by simp
  have "4 * ((1892 - 2 * u) * s) * (93 - 2 * u * s - u / 2) - ((1892 - 4 * u) * s)\<^sup>2
          = s * u * (3040 + 4 * u)"
    unfolding u_def by algebra
  moreover have "0 \<le> s * u * (3040 + 4 * u)"
    using u(1) assms(1) by simp
  ultimately have d2: "((1892 - 4 * u) * s)\<^sup>2 \<le> 4 * ((1892 - 2 * u) * s) * (93 - 2 * u * s - u / 2)"
    by linarith
  have "energy_form s x y - u * y\<^sup>2 / 2
          = ((1892 - 2 * u) * s) * x\<^sup>2 + ((1892 - 4 * u) * s) * x * y + (93 - 2 * u * s - u / 2) * y\<^sup>2"
    unfolding energy_form_def u_def by algebra
  with quad_form_nonneg [OF a2 d2, of x y]
  show "(93 - 473 * s) * y\<^sup>2 / 2 \<le> energy_form s x y"
    unfolding u_def by linarith
qed

lemma energy_rate_range:
  fixes s :: real
  assumes "0 < s" "473 * s < 93"
  shows "0 \<le> energy_rate s" "energy_rate s < 1"
proof -
  define u where "u = 93 - 473 * s"
  have u: "0 < u" "u < 93" using assms by (simp_all add: u_def)
  have "u\<^sup>2 \<le> 93\<^sup>2" using u by (intro power_mono) simp_all
  moreover have "s \<le> 1" using assms(2) by simp
  ultimately have "u\<^sup>2 * s \<le> 93\<^sup>2 * 1"
    using assms(1) by (intro mult_mono) simp_all
  then show "0 \<le> energy_rate s"
    by (simp add: energy_rate_def u_def)
  have "0 < u\<^sup>2 * s" using u(1) assms(1) by simp
  then show "energy_rate s < 1"
    by (simp add: energy_rate_def u_def)
qed

lemma small_energy_passes_test:
  fixes x dt v :: real
  assumes "0 < dt" "473 * dt\<^sup>2 < 93"
    and "energy_form (dt\<^sup>2) x (dt * v) < (93 - 473 * dt\<^sup>2) * dt\<^sup>2 / 25000"
  shows "\<bar>x\<bar> < 2 / 1000 \<and> \<bar>v\<bar> < 1 / 100"
proof -
  define u where "u = 93 - 473 * dt\<^sup>2"
  have u: "0 < u" using assms(2) by (simp add: u_def)
  have s: "0 < dt\<^sup>2" using assms(1) by simp
  have a: "10 * u * dt\<^sup>2 * x\<^sup>2 < u * dt\<^sup>2 / 25000"
    using energy_bounds(1) [OF s assms(2), of x "dt * v"] assms(3) unfolding u_def by linarith
  have b: "u * (dt * v)\<^sup>2 / 2 < u * dt\<^sup>2 / 25000"
    using energy_bounds(2) [OF s assms(2), of "dt * v" x] assms(3) unfolding u_def by linarith
  from a s u have "x\<^sup>2 < 1 / 250000" by (simp add: field_simps)
  then have "\<bar>x\<bar>\<^sup>2 < (2 / 1000)\<^sup>2" by (simp add: power2_eq_square)
  then have x: "\<bar>x\<bar> < 2 / 1000" by (rule power2_less_imp_less) simp
  from b s u have "v\<^sup>2 < 1 / 12500" by (simp add: field_simps power_mult_distrib)
  then have "\<bar>v\<bar>\<^sup>2 < (1 / 100)\<^sup>2" by (simp add: power2_eq_square)
  then have v: "\<bar>v\<bar> < 1 / 100" by (rule power2_less_imp_less) simp
  from x v show ?thesis by simp
qed

lemma update_spring_state:
  "spring_state c self \<Longrightarrow> update self dt mx = update_spring self dt c"
  by (simp add: spring_state_def update_Springing)

lemma spring_step_decreases:
  assumes "spring_state c self" "0 < dt" "473 * dt\<^sup>2 < 93"
  shows "\<not> flipping (flip (update self dt mx)) \<or>
         (spring_state c (update self dt mx) \<and>
          spring_energy dt (spring_target c) (update self dt mx)
            \<le> energy_rate (dt\<^sup>2) * spring_energy dt (spring_target c) self)"
proof -
  let ?x = "spring_target c - t (flip self)"
  let ?v = "(vel (flip self) + ?x * DRAG_SPRING * dt) * DRAG_DAMP"
  let ?t1 = "t (flip self) + ?v * dt"
  have s: "0 < dt\<^sup>2" "473 * dt\<^sup>2 < 93"
    using assms(2,3) by simp_all
  have y: "dt * ?v = (43 / 50) * (dt * vel (flip self) + 22 * dt\<^sup>2 * ?x)"
    by (simp add: DRAG_SPRING_def DRAG_DAMP_def power2_eq_square algebra_simps)
  have x: "spring_target c - ?t1 = ?x - (43 / 50) * (dt * vel (flip self) + 22 * dt\<^sup>2 * ?x)"
    using y by (simp add: algebra_simps)
  have e: "energy_form (dt\<^sup>2) (spring_target c - ?t1) (dt * ?v)
             \<le> energy_rate (dt\<^sup>2) * energy_form (dt\<^sup>2) ?x (dt * vel (flip self))"
    unfolding x y by (rule energy_step [OF s])
  have u0: "update self dt mx =
      (if \<bar>spring_target c - ?t1\<bar> < 2 / 1000 \<and> \<bar>?v\<bar> < 1 / 100
       then finish_flip (self\<lparr>flip := (flip self)\<lparr>vel := ?v, t := spring_target c\<rparr>, drag_commit := None\<rparr>)
       else self\<lparr>flip := (flip self)\<lparr>vel := ?v, t := ?t1\<rparr>\<rparr>)"
    unfolding update_spring_state [OF assms(1)] update_spring_def Let_def ..
  show ?thesis
  proof (cases "\<bar>spring_target c - ?t1\<bar> < 2 / 1000 \<and> \<bar>?v\<bar> < 1 / 100")
    case True
    have "update self dt mx =
        finish_flip (self\<lparr>flip := (flip self)\<lparr>vel := ?v, t := spring_target c\<rparr>, drag_commit := None\<rparr>)"
      by (rule trans [OF u0 if_P [OF True]])
    then show ?thesis by (simp add: finish_flip_def FlipState_new_def Let_def)
  next
    case False
    have u: "update self dt mx = self\<lparr>flip := (flip self)\<lparr>vel := ?v, t := ?t1\<rparr>\<rparr>"
      by (rule trans [OF u0 if_not_P [OF False]])
    have "spring_state c (update self dt mx)"
      using assms(1) by (simp add: u spring_state_def)
    moreover have "spring_energy dt (spring_target c) (update self dt mx)
            \<le> energy_rate (dt\<^sup>2) * spring_energy dt (spring_target c) self"
      using e by (simp add: u spring_energy_def)
    ultimately show ?thesis by simp
  qed
qed

lemma spring_step_converges:
  assumes "spring_state c self" "0 < dt" "473 * dt\<^sup>2 < 93"
    and "energy_rate (dt\<^sup>2) * spring_energy dt (spring_target c) self < (93 - 473 * dt\<^sup>2) * dt\<^sup>2 / 25000"
  shows "\<not> flipping (flip (update self dt mx))"
proof -
  let ?x = "spring_target c - t (flip self)"
  let ?v = "(vel (flip self) + ?x * DRAG_SPRING * dt) * DRAG_DAMP"
  let ?t1 = "t (flip self) + ?v * dt"
  have s: "0 < dt\<^sup>2" "473 * dt\<^sup>2 < 93"
    using assms(2,3) by simp_all
  have y: "dt * ?v = (43 / 50) * (dt * vel (flip self) + 22 * dt\<^sup>2 * ?x)"
    by (simp add: DRAG_SPRING_def DRAG_DAMP_def power2_eq_square algebra_simps)
  have x: "spring_target c - ?t1 = ?x - (43 / 50) * (dt * vel (flip self) + 22 * dt\<^sup>2 * ?x)"
    using y by (simp add: algebra_simps)
  have e: "energy_form (dt\<^sup>2) (spring_target c - ?t1) (dt * ?v)
             \<le> energy_rate (dt\<^sup>2) * energy_form (dt\<^sup>2) ?x (dt * vel (flip self))"
    unfolding x y by (rule energy_step [OF s])
  then have "energy_form (dt\<^sup>2) (spring_target c - ?t1) (dt * ?v) < (93 - 473 * dt\<^sup>2) * dt\<^sup>2 / 25000"
    using assms(4) by (simp add: spring_energy_def)
  from small_energy_passes_test [OF assms(2) s(2) this]
  have p: "\<bar>spring_target c - ?t1\<bar> < 2 / 1000 \<and> \<bar>?v\<bar> < 1 / 100" .
  have u0: "update self dt mx =
      (if \<bar>spring_target c - ?t1\<bar> < 2 / 1000 \<and> \<bar>?v\<bar> < 1 / 100
       then finish_flip (self\<lparr>flip := (flip self)\<lparr>vel := ?v, t := spring_target c\<rparr>, drag_commit := None\<rparr>)
       else self\<lparr>flip := (flip self)\<lparr>vel := ?v, t := ?t1\<rparr>\<rparr>)"
    unfolding update_spring_state [OF assms(1)] update_spring_def Let_def ..
  have "update self dt mx =
      finish_flip (self\<lparr>flip := (flip self)\<lparr>vel := ?v, t := spring_target c\<rparr>, drag_commit := None\<rparr>)"
    by (rule trans [OF u0 if_P [OF p]])
  then show ?thesis by (simp add: finish_flip_def FlipState_new_def Let_def)
qed


lemma advance_episode_stopped:
  "\<not> flipping (flip self) \<Longrightarrow> advance_episode self fs = self"
  by (cases fs) auto

lemma advance_episode_replicate_Suc:
  "flipping (flip self) \<Longrightarrow>
   advance_episode self (replicate (Suc n) (dt, mx)) =
     advance_episode (update self dt mx) (replicate n (dt, mx))"
  by simp

lemma spring_converges_within:
  assumes "0 < dt" "473 * dt\<^sup>2 < 93"
  shows "spring_state c self \<Longrightarrow>
         energy_rate (dt\<^sup>2) ^ Suc n * spring_energy dt (spring_target c) self < (93 - 473 * dt\<^sup>2) * dt\<^sup>2 / 25000 \<Longrightarrow>
         \<not> flipping (flip (advance_episode self (replicate (Suc n) (dt, mx))))"
proof (induction n arbitrary: self)
  case 0
  have f: "flipping (flip self)" using "0.prems"(1) by (simp add: spring_state_def)
  have "\<not> flipping (flip (update self dt mx))"
    using "0.prems" by (intro spring_step_converges [OF _ assms]) simp_all
  then show ?case using f by simp
next
  case (Suc n)
  have f: "flipping (flip self)" using Suc.prems(1) by (simp add: spring_state_def)
  let ?s = "update self dt mx"
  let ?r = "energy_rate (dt\<^sup>2)"
  have r: "0 \<le> ?r"
    using energy_rate_range(1) [of "dt\<^sup>2"] assms by simp
  have step: "advance_episode self (replicate (Suc (Suc n)) (dt, mx)) =
              advance_episode ?s (replicate (Suc n) (dt, mx))"
    using f by (rule advance_episode_replicate_Suc)
  from spring_step_decreases [OF Suc.prems(1) assms, of mx]
  show ?case
  proof
    assume "\<not> flipping (flip ?s)"
    then show ?thesis
      unfolding step by (simp add: advance_episode_stopped)
  next
    assume a: "spring_state c ?s \<and>
        spring_energy dt (spring_target c) ?s \<le> ?r * spring_energy dt (spring_target c) self"
    have "?r ^ Suc n * spring_energy dt (spring_target c) ?s
            \<le> ?r ^ Suc n * (?r * spring_energy dt (spring_target c) self)"
      using a r by (intro mult_left_mono) simp_all
    also have "\<dots> = ?r ^ Suc (Suc n) * spring_energy dt (spring_target c) self"
      by simp
    also have "\<dots> < (93 - 473 * dt\<^sup>2) * dt\<^sup>2 / 25000"
      by (rule Suc.prems(2))
    finally have "\<not> flipping (flip (advance_episode ?s (replicate (Suc n) (dt, mx))))"
      using a by (intro Suc.IH) simp_all
    then show ?thesis unfolding step .
  qed
qed


lemma diverging_step: "diverging self \<Longrightarrow> diverging (update self 1 mx)"
proof -
  assume d: "diverging self"
  then have st: "spring_state False self" by (simp add: diverging_def)
  define v1 where "v1 = (vel (flip self) + (0 - t (flip self)) * 22 * 1) * (86 / 100)"
  define t1 where "t1 = t (flip self) + v1 * 1"
  have v1: "v1 = (43 / 50) * vel (flip self) - (473 / 25) * t (flip self)"
    unfolding v1_def by (simp add: field_simps)
  have t1: "t1 = (43 / 50) * vel (flip self) - (448 / 25) * t (flip self)"
    unfolding t1_def v1 by (simp add: field_simps)
  from d consider
    (right) "1 / 2 \<le> t (flip self)" "0 \<le> vel (flip self)" "vel (flip self) \<le> 2 * t (flip self)"
  | (left) "t (flip self) \<le> - (1 / 2)" "2 * t (flip self) \<le> vel (flip self)" "vel (flip self) \<le> 0"
    by (auto simp add: diverging_def)
  then have next_side:
    "(1 / 2 \<le> t1 \<and> 0 \<le> v1 \<and> v1 \<le> 2 * t1) \<or> (t1 \<le> - (1 / 2) \<and> 2 * t1 \<le> v1 \<and> v1 \<le> 0)"
  proof cases
    case right
    have "t1 \<le> - (1 / 2)" "2 * t1 \<le> v1" "v1 \<le> 0"
      using right unfolding v1 t1 by (-, argo+)
    then show ?thesis by simp
  next
    case left
    have "1 / 2 \<le> t1" "0 \<le> v1" "v1 \<le> 2 * t1"
      using left unfolding v1 t1 by (-, argo+)
    then show ?thesis by simp
  qed
  then have far: "\<not> (\<bar>0 - t1\<bar> < 2 / 1000 \<and> \<bar>v1\<bar> < 1 / 100)"
    by auto
  have u0: "update self 1 mx =
      (if \<bar>0 - t1\<bar> < 2 / 1000 \<and> \<bar>v1\<bar> < 1 / 100
       then finish_flip (self\<lparr>flip := (flip self)\<lparr>vel := v1, t := 0\<rparr>, drag_commit := None\<rparr>)
       else self\<lparr>flip := (flip self)\<lparr>vel := v1, t := t1\<rparr>\<rparr>)"
    unfolding update_spring_state [OF st] update_spring_def Let_def spring_target_def
      DRAG_SPRING_def DRAG_DAMP_def t1_def v1_def by simp
  have u: "update self 1 mx = self\<lparr>flip := (flip self)\<lparr>vel := v1, t := t1\<rparr>\<rparr>"
    by (rule trans [OF u0 if_not_P [OF far]])
  show ?thesis
    using st next_side unfolding u by (simp add: diverging_def spring_state_def)
qed

lemma diverging_forever:
  "diverging self \<Longrightarrow> diverging (advance_episode self (replicate n (1, mx)))"
proof (induction n arbitrary: self)
  case 0
  then show ?case by simp
next
  case (Suc n)
  have "flipping (flip self)" using Suc.prems by (simp add: diverging_def spring_state_def)
  then show ?case
    using Suc.IH [OF diverging_step [OF Suc.prems]] by simp
qed

text \<open>
  Claim C9 as stated (the spring converges for any fixed positive time step) fails: a
  forward drag on a four-page book released at the spine is a cancelled spring that starts
  at progress 1/2 with velocity 0; stepped with \<open>dt = 1\<close> it is still flipping after
  every number of frames.
\<close>

theorem spring_never_converges_at_dt_one:
  "mode_of (run (BookAlbum_new p4)
      [Event (MOUSEBUTTONDOWN 1 1100 300) 300, Frame (1 / 60) 600,
       Event (MOUSEBUTTONUP 1) 300]) = Springing 0 \<and>
   t (flip (run (BookAlbum_new p4)
      [Event (MOUSEBUTTONDOWN 1 1100 300) 300, Frame (1 / 60) 600,
       Event (MOUSEBUTTONUP 1) 300])) = 1 / 2 \<and>
   vel (flip (run (BookAlbum_new p4)
      [Event (MOUSEBUTTONDOWN 1 1100 300) 300, Frame (1 / 60) 600,
       Event (MOUSEBUTTONUP 1) 300])) = 0 \<and>
   (\<forall>n. flipping (flip (advance_episode (run (BookAlbum_new p4)
      [Event (MOUSEBUTTONDOWN 1 1100 300) 300, Frame (1 / 60) 600,
       Event (MOUSEBUTTONUP 1) 300]) (replicate n (1, 600)))))"
proof -
  let ?s = "run (BookAlbum_new p4)
      [Event (MOUSEBUTTONDOWN 1 1100 300) 300, Frame (1 / 60) 600,
       Event (MOUSEBUTTONUP 1) 300]"
  have d: "diverging ?s"
    by (simp add: diverging_def spring_state_def defs)
  have "flipping (flip (advance_episode ?s (replicate n (1, 600))))" for n
    using diverging_forever [OF d, of n 600] by (simp add: diverging_def spring_state_def)
  moreover have "mode_of ?s = Springing 0 \<and> t (flip ?s) = 1 / 2 \<and> vel (flip ?s) = 0"
    by (simp add: defs)
  ultimately show ?thesis by simp
qed

lemma spring_episode_ends:
  assumes "mode_of self = Springing tg"
    and "0 \<le> t (flip self)" "t (flip self) \<le> 1" "vel (flip self) = 0"
    and "0 < dt" "473 * dt\<^sup>2 < 93"
  shows "\<exists>n. \<not> flipping (flip (advance_episode self (replicate n (dt, mx))))"
proof -
  from assms(1) obtain c where c: "spring_state c self" "spring_target c = tg"
    by (auto simp add: mode_of_Springing spring_state_def)
  let ?r = "energy_rate (dt\<^sup>2)"
  define u where "u = 93 - 473 * dt\<^sup>2"
  have u: "0 < u" "u \<le> 93" using assms(6) by (simp_all add: u_def)
  have s: "0 < dt\<^sup>2" using assms(5) by simp
  have x: "(tg - t (flip self))\<^sup>2 \<le> 1"
  proof -
    have "\<bar>tg - t (flip self)\<bar> \<le> 1"
      using c(2) assms(2,3) by (auto simp add: spring_target_def split: if_splits)
    then have "\<bar>tg - t (flip self)\<bar>\<^sup>2 \<le> 1\<^sup>2"
      by (intro power_mono) simp_all
    then show ?thesis by simp
  qed
  have "spring_energy dt tg self = (1892 - 2 * u) * (dt\<^sup>2 * (tg - t (flip self))\<^sup>2)"
    by (simp add: spring_energy_def energy_form_def assms(4) u_def power2_eq_square algebra_simps)
  also have "\<dots> \<le> 1892 * (dt\<^sup>2 * (tg - t (flip self))\<^sup>2)"
    using u(1) by (intro mult_right_mono) simp_all
  also have "\<dots> \<le> 1892 * (dt\<^sup>2 * 1)"
    using x s by (intro mult_left_mono) simp_all
  finally have e: "spring_energy dt tg self \<le> 1892 * dt\<^sup>2" by simp
  have r0: "0 \<le> ?r" and r1: "?r < 1"
    using energy_rate_range [OF s assms(6)] by simp_all
  have "0 < u / 47300000" using u(1) by simp
  then obtain n where n: "?r ^ n < u / 47300000"
    using real_arch_pow_inv [OF _ r1] by blast
  have "?r ^ Suc n \<le> ?r ^ n"
    using r0 r1 by (simp add: mult_left_le_one_le)
  then have p: "?r ^ Suc n < u / 47300000" using n by linarith
  have p0: "0 \<le> ?r ^ Suc n" using r0 by simp
  have "?r ^ Suc n * spring_energy dt tg self \<le> ?r ^ Suc n * (1892 * dt\<^sup>2)"
    using e p0 by (rule mult_left_mono)
  also have "\<dots> = (?r ^ Suc n * 1892) * dt\<^sup>2" by simp
  also have "\<dots> < (u / 25000) * dt\<^sup>2"
    using p s by (intro mult_strict_right_mono) simp_all
  finally have "?r ^ Suc n * spring_energy dt (spring_target c) self
                  < (93 - 473 * dt\<^sup>2) * dt\<^sup>2 / 25000"
    using c(2) by (simp add: u_def)
  from spring_converges_within [OF assms(5,6) c(1) this, of mx]
  have "\<not> flipping (flip (advance_episode self (replicate (Suc n) (dt, mx))))" .
  then show ?thesis ..
qed


text \<open>
  Claim C9, amended. For any fixed time step \<open>dt > 0\<close> with \<open>473 * dt\<^sup>2 < 93\<close> (that is,
  \<open>dt\<close> below about 0.443), a Springing episode that starts with progress in the unit
  interval and velocity 0 reaches the convergence test after finitely many frames: the
  flip is finished and the machine is Idle.
\<close>

theorem spring_converges_for_small_dt:
  assumes "mode_of self = Springing tg"
    and "0 \<le> t (flip self)" "t (flip self) \<le> 1" "vel (flip self) = 0"
    and "0 < dt" "473 * dt\<^sup>2 < 93"
  shows "\<exists>n. mode_of (advance_episode self (replicate n (dt, mx))) = Idle"
proof -
  from spring_episode_ends [OF assms]
  obtain n where nf: "\<not> flipping (flip (advance_episode self (replicate n (dt, mx))))" ..
  have "flipping (flip self)" "\<not> dragging (flip self)"
    using assms(1) by (simp_all add: mode_of_Springing)
  from advance_episode_result [OF this, of "replicate n (dt, mx)"] nf
  have "mode_of (advance_episode self (replicate n (dt, mx))) = Idle" by auto
  then show ?thesis ..
qed

theorem spring_converges_for_small_dt_witness:
  "mode_of (end_drag (dragging_example 600 1)) = Springing 0 \<and>
   t (flip (end_drag (dragging_example 600 1))) = 1 / 2 \<and>
   vel (flip (end_drag (dragging_example 600 1))) = 0 \<and>
   (\<exists>n. mode_of (advance_episode (end_drag (dragging_example 600 1))
           (replicate n (1 / 60, 600))) = Idle) \<and>
   (\<exists>n. mode_of (advance_episode (end_drag (dragging_example 600 1))
           (replicate n (11 / 25, 600))) = Idle)"
  using spring_converges_for_small_dt [of "end_drag (dragging_example 600 1)" 0 "1 / 60" 600]
    spring_converges_for_small_dt [of "end_drag (dragging_example 600 1)" 0 "11 / 25" 600]
  by (simp add: dragging_example_def defs power2_eq_square)


subsection \<open>Completed episodes\<close>




subsection \<open>The width of the leaf over a flip\<close>

lemma leaf_w_eq:
  "0 \<le> p \<Longrightarrow> p \<le> 1 \<Longrightarrow>
   leaf_w p = max 8 \<lfloor>509 * \<bar>cos (ease_out_cubic p * pi)\<bar>\<rfloor>"
  by (simp add: leaf_w_def clamp_def py_int_def geometry Let_def)

lemma ease_out_cubic_eq: "0 \<le> p \<Longrightarrow> p \<le> 1 \<Longrightarrow> ease_out_cubic p = 1 - (1 - p) ^ 3"
  by (simp add: ease_out_cubic_def clamp_def Let_def)

lemma ease_out_cubic_mono:
  assumes "0 \<le> p" "p \<le> q" "q \<le> 1"
  shows "ease_out_cubic p \<le> ease_out_cubic q"
proof -
  have "(1 - q) ^ 3 \<le> (1 - p) ^ 3"
    using assms by (intro power_mono) simp_all
  then show ?thesis
    using assms by (simp add: ease_out_cubic_eq)
qed

lemma ease_out_cubic_range:
  assumes "0 \<le> p" "p \<le> 1"
  shows "0 \<le> ease_out_cubic p" "ease_out_cubic p \<le> 1"
proof -
  have "(1 - p) ^ 3 \<le> 1 ^ 3"
    using assms by (intro power_mono) simp_all
  then show "0 \<le> ease_out_cubic p"
    using assms by (simp add: ease_out_cubic_eq)
  have "0 \<le> (1 - p) ^ 3" using assms by simp
  then show "ease_out_cubic p \<le> 1"
    using assms by (simp add: ease_out_cubic_eq)
qed

lemma width_mono:
  fixes a b :: real
  assumes "a \<le> b"
  shows "max 8 \<lfloor>509 * a\<rfloor> \<le> max (8::int) \<lfloor>509 * b\<rfloor>"
proof -
  have "\<lfloor>509 * a\<rfloor> \<le> \<lfloor>509 * b\<rfloor>"
    using assms by (intro floor_mono) simp
  then show ?thesis by simp
qed

lemma scale_closing:
  fixes d e :: real
  assumes "0 \<le> d" "d \<le> e" "e \<le> 1 / 2"
  shows "\<bar>cos (e * pi)\<bar> \<le> \<bar>cos (d * pi)\<bar>"
proof -
  have pos: "0 \<le> pi" by simp
  have a: "0 \<le> d * pi" using assms(1) by simp
  have b: "d * pi \<le> e * pi" using assms(2) by (simp add: mult_right_mono)
  have c: "e * pi \<le> pi / 2" using assms(3) mult_right_mono [OF assms(3) pos] by simp
  have "cos (e * pi) \<le> cos (d * pi)"
    using a b c by (intro cos_monotone_0_pi_le) simp_all
  moreover have "0 \<le> cos (e * pi)"
  proof (rule cos_ge_zero)
    have "- (pi / 2) \<le> 0" by simp
    also have "0 \<le> e * pi" using a b by linarith
    finally show "- (pi / 2) \<le> e * pi" .
    show "e * pi \<le> pi / 2" by (rule c)
  qed
  ultimately show ?thesis by simp
qed

lemma scale_opening:
  fixes d e :: real
  assumes "1 / 2 \<le> d" "d \<le> e" "e \<le> 1"
  shows "\<bar>cos (d * pi)\<bar> \<le> \<bar>cos (e * pi)\<bar>"
proof -
  have "\<bar>cos ((1 - d) * pi)\<bar> \<le> \<bar>cos ((1 - e) * pi)\<bar>"
    using assms by (intro scale_closing) simp_all
  moreover have "cos ((1 - d) * pi) = - cos (d * pi)" "cos ((1 - e) * pi) = - cos (e * pi)"
    using cos_pi_minus [of "d * pi"] cos_pi_minus [of "e * pi"] by (simp_all add: algebra_simps)
  ultimately show ?thesis by simp
qed

lemma root3_half_bounds: "793 / 1000 < root 3 (1 / 2)" "root 3 (1 / 2) < 794 / 1000"
proof -
  have "root 3 ((793 / 1000) ^ 3) < root 3 (1 / 2)"
    by (subst real_root_less_iff) (simp_all add: power3_eq_cube)
  then show "793 / 1000 < root 3 (1 / 2)"
    by (simp add: real_root_power_cancel)
  have "root 3 (1 / 2) < root 3 ((794 / 1000) ^ 3)"
    by (subst real_root_less_iff) (simp_all add: power3_eq_cube)
  then show "root 3 (1 / 2) < 794 / 1000"
    by (simp add: real_root_power_cancel)
qed

lemma ease_edge_on: "ease_out_cubic edge_on_progress = 1 / 2"
proof -
  have b: "0 \<le> edge_on_progress" "edge_on_progress \<le> 1"
    using root3_half_bounds by (simp_all add: edge_on_progress_def)
  have "root 3 (1 / 2) ^ 3 = 1 / 2"
    by (rule real_root_pow_pos2) simp_all
  then show ?thesis
    by (simp add: ease_out_cubic_eq [OF b]) (simp add: edge_on_progress_def)
qed

lemma leaf_w_one_fifth: "leaf_w (1 / 5) \<le> 24"
proof -
  have e: "ease_out_cubic (1 / 5) = 61 / 125"
    by (simp add: ease_out_cubic_eq power3_eq_cube)
  have "cos (61 / 125 * pi) = sin (pi / 2 - 61 / 125 * pi)"
    using cos_sin_eq [of "61 / 125 * pi"] by simp
  also have "pi / 2 - 61 / 125 * pi = 3 / 250 * pi" by simp
  finally have c: "cos (61 / 125 * pi) = sin (3 / 250 * pi)" .
  have "sin (3 / 250 * pi) \<le> 3 / 250 * pi"
    by (rule sin_x_le_x) simp
  also have "\<dots> \<le> 3 / 250 * 4"
    using pi_less_4 by simp
  finally have up: "sin (3 / 250 * pi) \<le> 12 / 250" by simp
  have lo: "0 \<le> sin (3 / 250 * pi)"
    using pi_less_4 by (intro sin_ge_zero) simp_all
  have "509 * \<bar>cos (61 / 125 * pi)\<bar> \<le> 509 * (12 / 250)"
    unfolding c using up lo by simp
  then have "509 * \<bar>cos (61 / 125 * pi)\<bar> < 25" by simp
  then have "\<lfloor>509 * \<bar>cos (61 / 125 * pi)\<bar>\<rfloor> < 25"
    by (simp add: floor_less_iff)
  then show ?thesis
    by (simp add: leaf_w_eq e)
qed

lemma leaf_w_one_half: "254 \<le> leaf_w (1 / 2)"
proof -
  have e: "ease_out_cubic (1 / 2) = 7 / 8"
    by (simp add: ease_out_cubic_eq power3_eq_cube)
  have "cos (pi - pi / 8) = - cos (pi / 8)"
    by (rule cos_pi_minus)
  moreover have "pi - pi / 8 = 7 / 8 * pi" by simp
  ultimately have c: "cos (7 / 8 * pi) = - cos (pi / 8)" by simp
  have "cos (pi / 3) \<le> cos (pi / 8)"
    by (intro cos_monotone_0_pi_le) simp_all
  then have h: "1 / 2 \<le> cos (pi / 8)" by (simp add: cos_60)
  then have "509 * (1 / 2) \<le> 509 * \<bar>cos (7 / 8 * pi)\<bar>"
    unfolding c by simp
  then have "254 \<le> 509 * \<bar>cos (7 / 8 * pi)\<bar>" by simp
  then have "254 \<le> \<lfloor>509 * \<bar>cos (7 / 8 * pi)\<bar>\<rfloor>"
    by (simp add: le_floor_iff)
  then show ?thesis
    by (simp add: leaf_w_eq e)
qed

text \<open>
  Claim C8 as stated (the width does not increase on progress 0 to 0.5 and has its minimum
  at progress 0.5) fails: the width is computed from the eased progress, which passes 1/2
  near progress 0.206. At progress 0.2 the leaf is at most 24 wide, at progress 0.5 at
  least 254.
\<close>

theorem leaf_narrower_at_one_fifth_than_at_half:
  "(0::real) \<le> 1 / 5 \<and> (1 / 5 :: real) \<le> 1 / 2 \<and> leaf_w (1 / 5) < leaf_w (1 / 2)"
  using leaf_w_one_fifth leaf_w_one_half by simp

text \<open>
  Claim C8, amended. The leaf width does not increase with the progress as long as the
  eased progress is at most 1/2 and does not decrease once the eased progress is at
  least 1/2; it is never below the floor 8 and equals it where the eased progress is 1/2,
  at progress \<open>1 - (1/2) ^ (1/3)\<close>, between 0.206 and 0.207.
\<close>

theorem leaf_width_follows_eased_progress:
  "(0 \<le> p \<and> p \<le> q \<and> q \<le> 1 \<and> ease_out_cubic q \<le> 1 / 2 \<longrightarrow> leaf_w q \<le> leaf_w p) \<and>
   (0 \<le> p \<and> p \<le> q \<and> q \<le> 1 \<and> 1 / 2 \<le> ease_out_cubic p \<longrightarrow> leaf_w p \<le> leaf_w q) \<and>
   8 \<le> leaf_w q \<and>
   ease_out_cubic edge_on_progress = 1 / 2 \<and> leaf_w edge_on_progress = 8 \<and>
   206 / 1000 < edge_on_progress \<and> edge_on_progress < 207 / 1000"
proof -
  have shrink: "leaf_w q \<le> leaf_w p"
    if h: "0 \<le> p" "p \<le> q" "q \<le> 1" "ease_out_cubic q \<le> 1 / 2"
  proof -
    have p1: "p \<le> 1" and q0: "0 \<le> q" using h by simp_all
    have "\<bar>cos (ease_out_cubic q * pi)\<bar> \<le> \<bar>cos (ease_out_cubic p * pi)\<bar>"
      using ease_out_cubic_range(1) [OF h(1) p1] ease_out_cubic_mono [OF h(1,2,3)] h(4)
      by (rule scale_closing)
    then show ?thesis
      unfolding leaf_w_eq [OF h(1) p1] leaf_w_eq [OF q0 h(3)] by (rule width_mono)
  qed
  have grow: "leaf_w p \<le> leaf_w q"
    if h: "0 \<le> p" "p \<le> q" "q \<le> 1" "1 / 2 \<le> ease_out_cubic p"
  proof -
    have p1: "p \<le> 1" and q0: "0 \<le> q" using h by simp_all
    have "\<bar>cos (ease_out_cubic p * pi)\<bar> \<le> \<bar>cos (ease_out_cubic q * pi)\<bar>"
      using h(4) ease_out_cubic_mono [OF h(1,2,3)] ease_out_cubic_range(2) [OF q0 h(3)]
      by (rule scale_opening)
    then show ?thesis
      unfolding leaf_w_eq [OF h(1) p1] leaf_w_eq [OF q0 h(3)] by (rule width_mono)
  qed
  have floor8: "8 \<le> leaf_w q"
    by (simp add: leaf_w_def Let_def)
  have b: "0 \<le> edge_on_progress" "edge_on_progress \<le> 1"
    using root3_half_bounds by (simp_all add: edge_on_progress_def)
  have at_edge: "leaf_w edge_on_progress = 8"
    by (simp add: leaf_w_eq [OF b] ease_edge_on)
  have near: "206 / 1000 < edge_on_progress" "edge_on_progress < 207 / 1000"
    using root3_half_bounds by (simp_all add: edge_on_progress_def)
  from shrink grow floor8 ease_edge_on at_edge near show ?thesis by blast
qed

theorem leaf_width_follows_eased_progress_witness:
  "leaf_w (1 / 5) \<le> leaf_w (1 / 10) \<and> leaf_w (1 / 2) \<le> leaf_w (3 / 4) \<and>
   8 \<le> leaf_w (1 / 2) \<and> leaf_w edge_on_progress = 8"
  using leaf_width_follows_eased_progress [of "1 / 10" "1 / 5"]
    leaf_width_follows_eased_progress [of "1 / 2" "3 / 4"]
    leaf_width_follows_eased_progress [of "1 / 2" "1 / 2"]
  by (simp add: ease_out_cubic_def clamp_def power3_eq_cube)


end
